theory Spec2Isabelle
  imports Main "HOL-Library.Word"
begin

section \<open>Shared types\<close>

text \<open>
  Go errors are values. The constructors below are the error values the connector and the
  decoder create or test for; \<open>Failure msg\<close> stands for any other error, which the code
  never inspects beyond comparing it with \<open>nil\<close> and \<open>io.EOF\<close>.
\<close>

datatype error =
    EOF
  | ErrClosedPipe
  | Canceled
  | ErrFieldCount
  | Failure string
  | OpenError string error
  | ReadError string error
  | InferHeaderError error
  | MalformedHeader error
  | DuplicateEntry string "string list"
  | HeaderNotProvided

text \<open>\<open>connector.SrcMeta\<close>: the active source and the bytes of it emitted so far (an int64).\<close>

record SrcMeta =
  Name :: string
  ByteOffset :: "64 word"

definition zeroMeta :: SrcMeta where
  "zeroMeta = \<lparr>Name = [], ByteOffset = 0\<rparr>"

section \<open>The CSV decoder (package transform)\<close>

subsection \<open>The stream as the decoder sees it\<close>

text \<open>
  The decoder reads rows through \<open>encoding/csv\<close> and asks the stream for \<open>Current()\<close> after
  every read. Both are outside the package, so the model takes them as input: the rows the
  parser will produce, each with the snapshot that \<open>Current()\<close> returns once that row has been
  produced, the snapshot returned before anything is read, and the one returned at the end
  of the stream. \<open>Bad msg\<close> is a row the parser rejects or a failed read of the stream.
\<close>

datatype csv_item = Rec "string list" | Bad string

record rowStream =
  upcoming :: "(csv_item \<times> SrcMeta) list"
  published :: SrcMeta
  final :: SrcMeta

text \<open>
  \<open>csv.Reader\<close> with its \<open>FieldsPerRecord\<close> setting: positive, every record must have that
  many fields; zero, the first record sets it; at the end of the input every read is
  \<open>io.EOF\<close>.
\<close>

record csvReader =
  FieldsPerRecord :: int
  rc :: rowStream

definition csvRead :: "csvReader \<Rightarrow> (string list \<times> error option) \<times> csvReader" where
  "csvRead r =
     (case upcoming (rc r) of
        [] \<Rightarrow> (([], Some EOF), r\<lparr>rc := (rc r)\<lparr>published := final (rc r)\<rparr>\<rparr>)
      | (item, meta) # rest \<Rightarrow>
          (let r' = r\<lparr>rc := (rc r)\<lparr>upcoming := rest, published := meta\<rparr>\<rparr>
           in case item of
                Bad msg \<Rightarrow> (([], Some (Failure msg)), r')
              | Rec row \<Rightarrow>
                  (if FieldsPerRecord r > 0 then
                     (if int (length row) \<noteq> FieldsPerRecord r
                      then ((row, Some ErrFieldCount), r')
                      else ((row, None), r'))
                   else if FieldsPerRecord r = 0 then
                     ((row, None), r'\<lparr>FieldsPerRecord := int (length row)\<rparr>)
                   else ((row, None), r'))))"

definition streamCurrent :: "rowStream \<Rightarrow> SrcMeta" where
  "streamCurrent s = published s"

subsection \<open>Decoder and iterator state\<close>

record CSVDecoderOptions =
  Comma :: "char option"
  Header :: "string list option"

record csvDecoder =
  comma :: char
  d_header :: "string list"

text \<open>
  \<open>csvRowIterator\<close>. The Go struct holds the stream twice, inside \<open>csvReader\<close> and as
  \<open>srcAwareStream\<close>; both are the same object, here the \<open>rc\<close> of the reader. The inverted
  index serves \<open>Record()\<close> only and is built by \<open>buildIndex\<close> below.
\<close>

record csvRowIterator =
  csvReader :: csvReader
  header :: "string list"
  atStart :: bool
  hasPending :: bool
  decoderError :: "error option"
  current :: "string list"
  pending :: "string list"
  currentSrcMeta :: SrcMeta
  pendingSrcMeta :: SrcMeta
  lastSourceMeta :: SrcMeta

definition NewCSVDecoder :: "CSVDecoderOptions \<Rightarrow> csvDecoder" where
  "NewCSVDecoder opt =
     \<lparr>comma = (case Comma opt of None \<Rightarrow> CHR '','' | Some c \<Rightarrow> c),
      d_header = (case Header opt of None \<Rightarrow> [] | Some h \<Rightarrow> h)\<rparr>"

text \<open>\<open>validateHeader\<close>: the first name already seen is reported as a duplicate.\<close>

fun validateHeader_loop :: "string list \<Rightarrow> string set \<Rightarrow> string list \<Rightarrow> error option" where
  "validateHeader_loop h names [] = None"
| "validateHeader_loop h names (name # rest) =
     (if name \<in> names then Some (DuplicateEntry name h)
      else validateHeader_loop h (insert name names) rest)"

definition validateHeader :: "string list \<Rightarrow> error option" where
  "validateHeader h = validateHeader_loop h {} h"

fun buildIndex_loop :: "nat \<Rightarrow> string list \<Rightarrow> (string \<rightharpoonup> nat) \<Rightarrow> (string \<rightharpoonup> nat)" where
  "buildIndex_loop idx [] invIndex = invIndex"
| "buildIndex_loop idx (name # rest) invIndex =
     buildIndex_loop (Suc idx) rest (invIndex(name \<mapsto> idx))"

definition buildIndex :: "string list \<Rightarrow> (string \<rightharpoonup> nat)" where
  "buildIndex names = buildIndex_loop 0 names Map.empty"

definition newIterator :: "string list \<Rightarrow> csvReader \<Rightarrow> csvRowIterator" where
  "newIterator csvHeader r =
     \<lparr>csvReader = r,
      header = csvHeader,
      atStart = False,
      hasPending = False,
      decoderError = None,
      current = replicate (length csvHeader) [],
      pending = [],
      currentSrcMeta = zeroMeta,
      pendingSrcMeta = zeroMeta,
      lastSourceMeta = streamCurrent (rc r)\<rparr>"

text \<open>
  \<open>Decode\<close>: the header is the configured one or, when none is configured, the first record
  of the stream; it is validated after \<open>FieldsPerRecord\<close> has been set. \<open>Inl\<close> is the error
  return, with no iterator. The goroutine that closes the stream when the context is
  cancelled is left out.
\<close>

definition Decode_finish :: "string list \<Rightarrow> csvReader \<Rightarrow> error + csvRowIterator" where
  "Decode_finish csvHeader r =
     (let r' = r\<lparr>FieldsPerRecord := int (length csvHeader)\<rparr>
      in case validateHeader csvHeader of
           Some err \<Rightarrow> Inl (MalformedHeader err)
         | None \<Rightarrow> Inr (newIterator csvHeader r'))"

definition Decode :: "csvDecoder \<Rightarrow> rowStream \<Rightarrow> error + csvRowIterator" where
  "Decode d s =
     (let r = \<lparr>FieldsPerRecord = 0, rc = s\<rparr>
      in if length (d_header d) = 0 then
           (case csvRead r of
              ((firstRec, Some err), r') \<Rightarrow> Inl (InferHeaderError err)
            | ((firstRec, None), r') \<Rightarrow> Decode_finish firstRec r')
         else Decode_finish (d_header d) r)"

subsection \<open>The iterator\<close>

text \<open>\<open>isheader\<close>: same length and the same name at every index.\<close>

definition isheader :: "csvRowIterator \<Rightarrow> string list \<Rightarrow> bool" where
  "isheader it row =
     (if length (header it) \<noteq> length row then False
      else list_all (\<lambda>i. header it ! i = row ! i) [0..<length (header it)])"

definition isSourceStart :: "csvRowIterator \<Rightarrow> SrcMeta \<Rightarrow> bool" where
  "isSourceStart it meta =
     (if Name (lastSourceMeta it) = [] then True
      else if Name meta \<noteq> Name (lastSourceMeta it) then True
      else ByteOffset meta = 0 \<and> ByteOffset (lastSourceMeta it) \<noteq> 0)"

text \<open>
  One pass through the body of the \<open>for\<close> loop of \<open>Next\<close>: \<open>Some b\<close> is \<open>return b\<close>,
  \<open>None\<close> is \<open>continue\<close>.
\<close>

definition Next_body :: "csvRowIterator \<Rightarrow> bool option \<times> csvRowIterator" where
  "Next_body it =
     (if hasPending it then
        (Some True, it\<lparr>current := pending it, currentSrcMeta := pendingSrcMeta it,
                        hasPending := False\<rparr>)
      else
        (case csvRead (csvReader it) of
           ((row, err), r') \<Rightarrow>
             (let it1 = it\<lparr>csvReader := r'\<rparr>;
                  meta = streamCurrent (rc r');
                  it2 = (if isSourceStart it1 meta then it1\<lparr>atStart := True\<rparr> else it1)
              in if atStart it2 then
                   (if err = Some EOF then
                      (None, it2\<lparr>atStart := False, lastSourceMeta := meta\<rparr>)
                    else if err \<noteq> None then
                      (Some False, it2\<lparr>decoderError := err\<rparr>)
                    else if isheader it2 row then
                      (None, it2\<lparr>atStart := False, lastSourceMeta := meta\<rparr>)
                    else
                      (None, it2\<lparr>pending := row, pendingSrcMeta := meta,
                                  hasPending := True, atStart := False\<rparr>))
                 else
                   (if err = Some EOF then (Some False, it2)
                    else if err \<noteq> None then (Some False, it2\<lparr>decoderError := err\<rparr>)
                    else
                      (Some True, it2\<lparr>current := row, currentSrcMeta := meta,
                                       lastSourceMeta := meta\<rparr>)))))"

text \<open>The loop itself may not return; then its value is \<open>None\<close>.\<close>

partial_function (option) Next_loop :: "csvRowIterator \<Rightarrow> (bool \<times> csvRowIterator) option" where
  "Next_loop it =
     (case Next_body it of
        (Some b, it') \<Rightarrow> Some (b, it')
      | (None, it') \<Rightarrow> Next_loop it')"

definition Next :: "csvRowIterator \<Rightarrow> (bool \<times> csvRowIterator) option" where
  "Next it =
     (if decoderError it \<noteq> None then Some (False, it)
      else if length (header it) = 0 then
        Some (False, it\<lparr>decoderError := Some HeaderNotProvided\<rparr>)
      else Next_loop it)"

definition Err :: "csvRowIterator \<Rightarrow> error option" where
  "Err it = decoderError it"

subsection \<open>Decoding sessions used as examples\<close>

text \<open>
  Two sources \<open>a\<close> and \<open>b\<close>; \<open>a\<close> is a header line only, \<open>b\<close> is the header line twice.
  The header is inferred from the first row of \<open>a\<close>.
\<close>

definition repeated_header_stream :: rowStream where
  "repeated_header_stream =
     \<lparr>upcoming = [(Rec [''col1'', ''col2''], \<lparr>Name = ''a'', ByteOffset = 10\<rparr>),
                  (Rec [''col1'', ''col2''], \<lparr>Name = ''b'', ByteOffset = 0\<rparr>),
                  (Rec [''col1'', ''col2''], \<lparr>Name = ''b'', ByteOffset = 20\<rparr>)],
      published = zeroMeta,
      final = \<lparr>Name = ''b'', ByteOffset = 20\<rparr>\<rparr>"

definition repeated_header_it :: csvRowIterator where
  "repeated_header_it =
     newIterator [''col1'', ''col2'']
       \<lparr>FieldsPerRecord = 2,
        rc = repeated_header_stream
               \<lparr>upcoming := tl (upcoming repeated_header_stream),
                published := \<lparr>Name = ''a'', ByteOffset = 10\<rparr>\<rparr>\<rparr>"

text \<open>
  The session of the test "do no skip mismatching", after the rows of the first source:
  the second source \<open>b\<close> starts with \<open>x,y\<close>.
\<close>

definition mismatching_it :: csvRowIterator where
  "mismatching_it =
     (newIterator [''col1'', ''col2'']
        \<lparr>FieldsPerRecord = 2,
         rc = \<lparr>upcoming = [(Rec [''x'', ''y''], \<lparr>Name = ''b'', ByteOffset = 0\<rparr>),
                           (Rec [''a2'', ''b2''], \<lparr>Name = ''b'', ByteOffset = 10\<rparr>)],
               published = \<lparr>Name = ''a'', ByteOffset = 16\<rparr>,
               final = \<lparr>Name = ''b'', ByteOffset = 10\<rparr>\<rparr>\<rparr>)"

text \<open>
  The session of the test "header skip on new source", after the rows of the first source.
\<close>

definition header_skip_it :: csvRowIterator where
  "header_skip_it =
     (newIterator [''col1'', ''col2'']
        \<lparr>FieldsPerRecord = 2,
         rc = \<lparr>upcoming = [(Rec [''col1'', ''col2''], \<lparr>Name = ''b'', ByteOffset = 0\<rparr>),
                           (Rec [''a2'', ''b2''], \<lparr>Name = ''b'', ByteOffset = 16\<rparr>)],
               published = \<lparr>Name = ''a'', ByteOffset = 16\<rparr>,
               final = \<lparr>Name = ''b'', ByteOffset = 16\<rparr>\<rparr>\<rparr>)"

text \<open>
  An explicit header \<open>a,b\<close> over one source whose name is the empty string and whose data
  is the line \<open>1,2\<close>; and the same decoder over no source at all, where \<open>Current()\<close> is the
  zero \<open>SrcMeta\<close> throughout.
\<close>

definition unnamed_source_stream :: rowStream where
  "unnamed_source_stream =
     \<lparr>upcoming = [(Rec [''1'', ''2''], \<lparr>Name = [], ByteOffset = 4\<rparr>)],
      published = \<lparr>Name = [], ByteOffset = 0\<rparr>,
      final = \<lparr>Name = [], ByteOffset = 4\<rparr>\<rparr>"

definition unnamed_source_it :: csvRowIterator where
  "unnamed_source_it =
     newIterator [''a'', ''b''] \<lparr>FieldsPerRecord = 2, rc = unnamed_source_stream\<rparr>"

definition no_source_stream :: rowStream where
  "no_source_stream = \<lparr>upcoming = [], published = zeroMeta, final = zeroMeta\<rparr>"

definition no_source_it :: csvRowIterator where
  "no_source_it = newIterator [''a'', ''b''] \<lparr>FieldsPerRecord = 2, rc = no_source_stream\<rparr>"

text \<open>
  The state after a header-identical first row has been dropped: the row is gone from the
  reader, the snapshot seen with it is the last one observed, and \<open>atStart\<close> is false.
\<close>

definition dropped :: "csvRowIterator \<Rightarrow> SrcMeta \<Rightarrow> (csv_item \<times> SrcMeta) list \<Rightarrow> csvRowIterator" where
  "dropped it meta rest =
     it\<lparr>csvReader := (csvReader it)\<lparr>rc := (rc (csvReader it))\<lparr>upcoming := rest, published := meta\<rparr>\<rparr>,
        atStart := False, lastSourceMeta := meta\<rparr>"

section \<open>The multiplexer (package connector)\<close>

subsection \<open>Sources\<close>

text \<open>
  \<open>opener.Opener\<close> is an interface: a name and \<open>Open\<close>, which fails or returns a reader.
  A reader is given by what its successive \<open>Read(buf)\<close> calls return: the bytes put in the
  buffer (\<open>n\<close> is their number) and the error, \<open>None\<close> for \<open>nil\<close>. A reader whose list is
  used up returns \<open>(0, io.EOF)\<close>.
\<close>

type_synonym reader = "(string \<times> error option) list"

record opener =
  opName :: string
  opOpen :: "error + reader"

subsection \<open>The pipe and the boundary channel\<close>

text \<open>
  \<open>io.Pipe\<close> hands every written byte to the reading side, in order, and a write returns
  only when its bytes have been read. The model runs the producer first and keeps what it
  wrote in \<open>buf\<close> until the consumer reads it, which gives a consumer that reads to the end
  the same bytes and the same final error. \<open>werr\<close> is the error set by the first
  \<open>Close\<close> or \<open>CloseWithError\<close> of the writing side, \<open>rclosed\<close> tells that the
  reading side was closed.
\<close>

record pipe =
  buf :: string
  werr :: "error option"
  rclosed :: bool

definition pwWrite :: "pipe \<Rightarrow> string \<Rightarrow> error + pipe" where
  "pwWrite p bs =
     (if rclosed p \<or> werr p \<noteq> None then Inl ErrClosedPipe
      else Inr (p\<lparr>buf := buf p @ bs\<rparr>))"

definition pwCloseWithError :: "pipe \<Rightarrow> error option \<Rightarrow> pipe" where
  "pwCloseWithError p err =
     (if werr p \<noteq> None then p
      else p\<lparr>werr := Some (case err of None \<Rightarrow> EOF | Some e \<Rightarrow> e)\<rparr>)"

definition pwClose :: "pipe \<Rightarrow> pipe" where
  "pwClose p = pwCloseWithError p None"

text \<open>\<open>None\<close>: nothing to read yet and the writing side still open; the call waits.\<close>

definition prRead :: "pipe \<Rightarrow> nat \<Rightarrow> ((string \<times> error option) \<times> pipe) option" where
  "prRead p n =
     (if rclosed p then Some (([], Some ErrClosedPipe), p)
      else if buf p \<noteq> [] then Some ((take n (buf p), None), p\<lparr>buf := drop n (buf p)\<rparr>)
      else (case werr p of
              Some e \<Rightarrow> Some (([], Some e), p)
            | None \<Rightarrow> None))"

text \<open>A channel with a buffer of one element, as made by \<open>make(chan SrcMeta, 1)\<close>.\<close>

record 'a chan =
  queue :: "'a list"
  closed :: bool

text \<open>
  \<open>overwriteLatest\<close>: the \<open>select\<close> can send when the buffer has room and can receive when
  it holds a value; with one slot exactly one of the two is possible in each round. The
  channel is closed only by the deferred call that runs after the loop, so a send never
  meets a closed channel.
\<close>

function overwriteLatest :: "'a chan \<Rightarrow> 'a \<Rightarrow> 'a chan" where
  "overwriteLatest ch v =
     (if length (queue ch) < 1 then ch\<lparr>queue := queue ch @ [v]\<rparr>
      else overwriteLatest (ch\<lparr>queue := tl (queue ch)\<rparr>) v)"
  by pat_completeness auto
termination
  by (relation "measure (\<lambda>(ch, v). length (queue ch))") auto

function drainAndCloseChannel :: "'a chan \<Rightarrow> 'a chan" where
  "drainAndCloseChannel ch =
     (if queue ch \<noteq> [] then drainAndCloseChannel (ch\<lparr>queue := tl (queue ch)\<rparr>)
      else ch\<lparr>closed := True\<rparr>)"
  by pat_completeness auto
termination
  by (relation "measure (\<lambda>ch. length (queue ch))") auto

subsection \<open>The multiplexer\<close>

text \<open>
  What the producer goroutine does to the shared state, in order. The Go struct has no such
  field; the list is kept so that the order of the effects can be stated. The number is the
  index of the source in the list given to \<open>NewMuxReader\<close>.
\<close>

datatype event =
    Opened nat
  | Stored SrcMeta
  | Published nat SrcMeta
  | Wrote nat string
  | Aborted error

record muxReader =
  pipe :: pipe
  mcurrent :: "SrcMeta option"
  boundary :: "SrcMeta chan"
  trace :: "event list"

definition emit :: "event list \<Rightarrow> muxReader \<Rightarrow> muxReader" where
  "emit es m = m\<lparr>trace := trace m @ es\<rparr>"

definition Read :: "muxReader \<Rightarrow> nat \<Rightarrow> ((string \<times> error option) \<times> muxReader) option" where
  "Read m n =
     (case prRead (pipe m) n of
        None \<Rightarrow> None
      | Some (res, p') \<Rightarrow> Some (res, m\<lparr>pipe := p'\<rparr>))"

definition Close :: "muxReader \<Rightarrow> muxReader" where
  "Close m = m\<lparr>pipe := (pipe m)\<lparr>rclosed := True\<rparr>\<rparr>"

definition Current :: "muxReader \<Rightarrow> SrcMeta" where
  "Current m = (case mcurrent m of None \<Rightarrow> zeroMeta | Some val \<Rightarrow> val)"

text \<open>
  \<open>AwaitBoundary\<close> is one \<open>select\<close> over the boundary channel and \<open>ctx.Done()\<close>. The
  result is the list of the outcomes the \<open>select\<close> may choose from; the empty list means
  that the call waits.
\<close>

definition AwaitBoundary ::
  "muxReader \<Rightarrow> bool \<Rightarrow> ((SrcMeta \<times> error option) \<times> muxReader) list" where
  "AwaitBoundary m ctxDone =
     (if queue (boundary m) \<noteq> [] then
        [((hd (queue (boundary m)), None),
          m\<lparr>boundary := (boundary m)\<lparr>queue := tl (queue (boundary m))\<rparr>\<rparr>)]
      else if closed (boundary m) then [((zeroMeta, Some EOF), m)]
      else [])
     @ (if ctxDone then [((zeroMeta, Some Canceled), m)] else [])"

text \<open>
  The block \<open>if n > 0 { ... }\<close> of the inner loop: the offset is advanced, the bytes are
  written to the pipe and the new snapshot is stored; \<open>Inl\<close> when the write fails and the
  goroutine returns.
\<close>

definition forward :: "nat \<Rightarrow> string \<Rightarrow> SrcMeta \<Rightarrow> muxReader \<Rightarrow> muxReader + SrcMeta \<times> muxReader" where
  "forward k chunk meta m =
     (if length chunk > 0 then
        (let meta' = meta\<lparr>ByteOffset := ByteOffset meta + of_nat (length chunk)\<rparr>
         in case pwWrite (pipe m) chunk of
              Inl we \<Rightarrow>
                Inl (emit [Aborted we] (m\<lparr>pipe := pwCloseWithError (pipe m) (Some we)\<rparr>))
            | Inr p' \<Rightarrow>
                Inr (meta', emit [Wrote k chunk, Stored meta']
                              (m\<lparr>pipe := p', mcurrent := Some meta'\<rparr>)))
      else Inr (meta, m))"

definition abort_read :: "string \<Rightarrow> error \<Rightarrow> muxReader \<Rightarrow> muxReader" where
  "abort_read nm e m =
     emit [Aborted (ReadError nm e)]
       (m\<lparr>pipe := pwCloseWithError (pipe m) (Some (ReadError nm e))\<rparr>)"

text \<open>
  The inner \<open>for\<close> loop of the goroutine over one opened source: the bytes of a read are
  forwarded before its error is looked at. The result is \<open>True\<close> when the loop is left
  by \<open>break\<close> and \<open>False\<close> when the goroutine returns. Closing the reader of the
  source touches none of the shared state and is left out.
\<close>

fun streamBytes :: "nat \<Rightarrow> string \<Rightarrow> reader \<Rightarrow> SrcMeta \<Rightarrow> muxReader \<Rightarrow> bool \<times> muxReader" where
  "streamBytes k nm [] meta m = (True, m)"
| "streamBytes k nm ((chunk, rerr) # rest) meta m =
     (case forward k chunk meta m of
        Inl m' \<Rightarrow> (False, m')
      | Inr (meta1, m1) \<Rightarrow>
          (case rerr of
             None \<Rightarrow> streamBytes k nm rest meta1 m1
           | Some e \<Rightarrow> if e = EOF then (True, m1) else (False, abort_read nm e m1)))"

text \<open>
  The start of a source that opened: its first snapshot is stored in \<open>current\<close>, then
  published on the boundary channel.
\<close>

definition announce :: "nat \<Rightarrow> SrcMeta \<Rightarrow> muxReader \<Rightarrow> muxReader" where
  "announce k meta m =
     (let m1 = emit [Opened k, Stored meta] (m\<lparr>mcurrent := Some meta\<rparr>)
      in emit [Published k meta] (m1\<lparr>boundary := overwriteLatest (boundary m1) meta\<rparr>))"

definition abort_open :: "string \<Rightarrow> error \<Rightarrow> muxReader \<Rightarrow> muxReader" where
  "abort_open nm err m =
     emit [Aborted (OpenError nm err)]
       (m\<lparr>pipe := pwCloseWithError (pipe m) (Some (OpenError nm err))\<rparr>)"

text \<open>The outer loop over the openers; \<open>k\<close> is the index of the first of them.\<close>

fun produce :: "nat \<Rightarrow> opener list \<Rightarrow> muxReader \<Rightarrow> muxReader" where
  "produce k [] m = m"
| "produce k (opn # ops) m =
     (case opOpen opn of
        Inl err \<Rightarrow> abort_open (opName opn) err m
      | Inr rd \<Rightarrow>
          (case streamBytes k (opName opn) rd \<lparr>Name = opName opn, ByteOffset = 0\<rparr>
                  (announce k \<lparr>Name = opName opn, ByteOffset = 0\<rparr> m) of
             (ok, m3) \<Rightarrow> if ok then produce (Suc k) ops m3 else m3))"

text \<open>
  \<open>NewMuxReader\<close> returns the multiplexer below and starts the goroutine; \<open>producer\<close> is
  the goroutine run to its end, with its two deferred calls.
\<close>

definition NewMuxReader :: muxReader where
  "NewMuxReader =
     \<lparr>pipe = \<lparr>buf = [], werr = None, rclosed = False\<rparr>,
      mcurrent = None,
      boundary = \<lparr>queue = [], closed = False\<rparr>,
      trace = []\<rparr>"

definition producer :: "opener list \<Rightarrow> muxReader \<Rightarrow> muxReader" where
  "producer ops m =
     (let m1 = produce 0 ops m;
          m2 = m1\<lparr>pipe := pwClose (pipe m1)\<rparr>
      in m2\<lparr>boundary := drainAndCloseChannel (boundary m2)\<rparr>)"

text \<open>
  A consumer that reads to the end with a buffer of \<open>n > 0\<close> bytes, as \<open>io.ReadAll\<close> and
  \<open>io.Copy\<close> do: all the bytes read and the error that ended the reading. \<open>None\<close>: a
  read would wait.
\<close>

function ReadAll :: "nat \<Rightarrow> muxReader \<Rightarrow> (string \<times> error) option" where
  "ReadAll n m =
     (if n = 0 then None
      else case Read m n of
             None \<Rightarrow> None
           | Some ((bs, Some e), m') \<Rightarrow> Some (bs, e)
           | Some ((bs, None), m') \<Rightarrow>
               (case ReadAll n m' of
                  None \<Rightarrow> None
                | Some (bs', e) \<Rightarrow> Some (bs @ bs', e)))"
  by pat_completeness auto
termination
proof (relation "measure (\<lambda>(n, m). length (buf (pipe m)))")
  show "wf (measure (\<lambda>(n, m). length (buf (pipe m))))" by simp
next
  fix n :: nat and m x2 x1 m' bs and rerr :: "error option"
  assume "n \<noteq> 0" and "Read m n = Some x2" and "(x1, m') = x2" and "(bs, rerr) = x1"
    and "rerr = None"
  then have "Read m n = Some ((bs, None), m')" by simp
  then have "length (buf (pipe m')) < length (buf (pipe m))"
    using \<open>n \<noteq> 0\<close>
    by (auto simp: Read_def prRead_def split: if_splits option.splits)
  then show "((n, m'), (n, m)) \<in> measure (\<lambda>(n, m). length (buf (pipe m)))" by simp
qed

subsection \<open>What a run is to deliver\<close>

text \<open>
  The bytes a reader hands out up to its first error or end, and the error that ends it
  (\<open>EOF\<close> for a clean end).
\<close>

fun payload :: "reader \<Rightarrow> string" where
  "payload [] = []"
| "payload ((chunk, rerr) # rest) = chunk @ (if rerr = None then payload rest else [])"

fun outcome :: "reader \<Rightarrow> error" where
  "outcome [] = EOF"
| "outcome ((chunk, rerr) # rest) = (case rerr of None \<Rightarrow> outcome rest | Some e \<Rightarrow> e)"

text \<open>
  Following the specification's description of the algorithm: the sources are taken in
  order; a failed open ends the stream with an error naming the source; a failed read ends
  the stream, after the bytes obtained so far, with an error naming the source; a clean end
  of a source leads to the next one, and the end of the list is a clean end of the stream.
\<close>

fun merged_bytes :: "opener list \<Rightarrow> string" where
  "merged_bytes [] = []"
| "merged_bytes (opn # ops) =
     (case opOpen opn of
        Inl err \<Rightarrow> []
      | Inr rd \<Rightarrow> payload rd @ (if outcome rd = EOF then merged_bytes ops else []))"

fun terminal_error :: "opener list \<Rightarrow> error" where
  "terminal_error [] = EOF"
| "terminal_error (opn # ops) =
     (case opOpen opn of
        Inl err \<Rightarrow> OpenError (opName opn) err
      | Inr rd \<Rightarrow>
          (if outcome rd = EOF then terminal_error ops
           else ReadError (opName opn) (outcome rd)))"

text \<open>A source that opens and whose reads all succeed, up to the end of its data.\<close>

definition reads_cleanly :: "opener \<Rightarrow> bool" where
  "reads_cleanly opn =
     (case opOpen opn of Inl err \<Rightarrow> False | Inr rd \<Rightarrow> outcome rd = EOF)"

definition source_payload :: "opener \<Rightarrow> string" where
  "source_payload opn = (case opOpen opn of Inl err \<Rightarrow> [] | Inr rd \<Rightarrow> payload rd)"

text \<open>The boundary events of a trace, and the sources it shows as opened.\<close>

definition boundary_events :: "event list \<Rightarrow> SrcMeta list" where
  "boundary_events T = [meta. Published k meta \<leftarrow> T]"

definition opened_sources :: "event list \<Rightarrow> nat list" where
  "opened_sources T = [k. Opened k \<leftarrow> T]"

subsection \<open>Stages of a run\<close>

text \<open>
  The boundary event of a source, as the loop builds it. \<open>reached ops j\<close> is the
  multiplexer when the loop has gone through the first \<open>j\<close> sources of the list, and
  \<open>at_boundary ops j\<close> the multiplexer right after the loop has stored and published the
  boundary of source \<open>j\<close>, before the first read of that source.
\<close>

definition boundary_of :: "opener \<Rightarrow> SrcMeta" where
  "boundary_of opn = \<lparr>Name = opName opn, ByteOffset = 0\<rparr>"

definition reached :: "opener list \<Rightarrow> nat \<Rightarrow> muxReader" where
  "reached ops j = produce 0 (take j ops) NewMuxReader"

definition at_boundary :: "opener list \<Rightarrow> nat \<Rightarrow> muxReader" where
  "at_boundary ops j = announce j (boundary_of (ops ! j)) (reached ops j)"

subsection \<open>Notions used in the proofs\<close>

text \<open>Neither side of the pipe has been closed.\<close>

definition pipe_open :: "muxReader \<Rightarrow> bool" where
  "pipe_open m \<longleftrightarrow> werr (pipe m) = None \<and> \<not> rclosed (pipe m)"

text \<open>The events the inner loop over source \<open>k\<close> can add.\<close>

definition data_events :: "nat \<Rightarrow> event list \<Rightarrow> bool" where
  "data_events k W \<longleftrightarrow>
     list_all (\<lambda>e. case e of Wrote j c \<Rightarrow> j = k | Stored meta \<Rightarrow> True | Aborted err \<Rightarrow> True
                   | Opened j \<Rightarrow> False | Published j meta \<Rightarrow> False) W"

text \<open>
  A check on traces: every write of a source comes after the publication of that source's
  boundary, or the source is in the set \<open>S\<close> of those published before.
\<close>

fun guarded :: "nat set \<Rightarrow> event list \<Rightarrow> bool" where
  "guarded S [] = True"
| "guarded S (Published j meta # T) = guarded (insert j S) T"
| "guarded S (Wrote j c # T) = (j \<in> S \<and> guarded S T)"
| "guarded S (e # T) = guarded S T"

subsection \<open>Source lists used as examples\<close>

text \<open>
  The sources of the tests of the multiplexer: \<open>a = "hello"\<close> and \<open>b = "WORLD"\<close>; the same
  with a source in between whose open fails; \<open>a = "abcdef"\<close> whose reader fails after
  \<open>"abc"\<close>, once with the error in a read of its own and once in the read that returns
  \<open>"abc"\<close>.
\<close>

definition hello_world :: "opener list" where
  "hello_world =
     [\<lparr>opName = ''a'', opOpen = Inr [(''hello'', None)]\<rparr>,
      \<lparr>opName = ''b'', opOpen = Inr [(''WORLD'', None)]\<rparr>]"

definition hello_bad_world :: "opener list" where
  "hello_bad_world =
     [\<lparr>opName = ''a'', opOpen = Inr [(''hello'', None)]\<rparr>,
      \<lparr>opName = ''bad'', opOpen = Inl (Failure ''boom'')\<rparr>,
      \<lparr>opName = ''b'', opOpen = Inr [(''WORLD'', None)]\<rparr>]"

definition abc_then_error :: "opener list" where
  "abc_then_error =
     [\<lparr>opName = ''a'',
       opOpen = Inr [(''abc'', None), ([], Some (Failure ''injected read error''))]\<rparr>]"

definition abc_with_error :: "opener list" where
  "abc_with_error =
     [\<lparr>opName = ''a'', opOpen = Inr [(''abc'', Some (Failure ''injected read error''))]\<rparr>]"

section \<open>Properties of the decoder\<close>

subsection \<open>Header helpers\<close>

lemma isheader_iff: "isheader it row \<longleftrightarrow> row = header it"
  by (auto simp: isheader_def list_all_iff intro: nth_equalityI)

lemma validateHeader_loop_None:
  "validateHeader_loop h names xs = None \<longleftrightarrow> distinct xs \<and> set xs \<inter> names = {}"
  by (induction xs arbitrary: names) auto

lemma validateHeader_None: "validateHeader h = None \<longleftrightarrow> distinct h"
  by (simp add: validateHeader_def validateHeader_loop_None)

lemma validateHeader_loop_Some:
  "validateHeader_loop h names xs = Some e \<Longrightarrow> \<exists>name. e = DuplicateEntry name h"
  by (induction xs arbitrary: names) (auto split: if_splits)

lemma validateHeader_dup:
  assumes "\<not> distinct h"
  shows "\<exists>name. validateHeader h = Some (DuplicateEntry name h)"
proof -
  from assms have "validateHeader h \<noteq> None" by (simp add: validateHeader_None)
  then obtain e where e: "validateHeader h = Some e" by auto
  then obtain name where "e = DuplicateEntry name h"
    unfolding validateHeader_def using validateHeader_loop_Some by blast
  with e show ?thesis by blast
qed

subsection \<open>One pass of the loop\<close>

lemma Next_loop_return: "Next_body it = (Some b, it') \<Longrightarrow> Next_loop it = Some (b, it')"
  by (subst Next_loop.simps) simp

lemma Next_loop_continue: "Next_body it = (None, it') \<Longrightarrow> Next_loop it = Next_loop it'"
  by (subst Next_loop.simps) simp

lemma isSourceStart_csvReader [simp]:
  "isSourceStart (it\<lparr>csvReader := r\<rparr>) meta = isSourceStart it meta"
  by (simp add: isSourceStart_def)

lemma isheader_update [simp]:
  "isheader (it\<lparr>csvReader := r\<rparr>) row = isheader it row"
  "isheader (it\<lparr>atStart := b\<rparr>) row = isheader it row"
  by (simp_all add: isheader_def)

lemma csvRead_row:
  "upcoming (rc r) = (Rec row, meta) # rest \<Longrightarrow> FieldsPerRecord r = int (length row) \<Longrightarrow>
   row \<noteq> [] \<Longrightarrow>
   csvRead r = ((row, None), r\<lparr>rc := (rc r)\<lparr>upcoming := rest, published := meta\<rparr>\<rparr>)"
  by (simp add: csvRead_def)

lemma csvRead_eof:
  "upcoming (rc r) = [] \<Longrightarrow>
   csvRead r = (([], Some EOF), r\<lparr>rc := (rc r)\<lparr>published := final (rc r)\<rparr>\<rparr>)"
  by (simp add: csvRead_def)

text \<open>A row that differs from the header, read at a source start, goes to the pushback slot.\<close>

lemma Next_body_hold:
  assumes "\<not> hasPending it"
    and "FieldsPerRecord (csvReader it) = int (length (header it))"
    and "upcoming (rc (csvReader it)) = (Rec row, meta) # rest"
    and "atStart it \<or> isSourceStart it meta"
    and "length row = length (header it)" "row \<noteq> header it" "header it \<noteq> []"
  shows "Next_body it =
     (None, it\<lparr>csvReader := (csvReader it)\<lparr>rc := (rc (csvReader it))
                                \<lparr>upcoming := rest, published := meta\<rparr>\<rparr>,
               atStart := False, hasPending := True, pending := row, pendingSrcMeta := meta\<rparr>)"
proof -
  have rd: "csvRead (csvReader it) =
      ((row, None), (csvReader it)\<lparr>rc := (rc (csvReader it))\<lparr>upcoming := rest, published := meta\<rparr>\<rparr>)"
    using assms by (intro csvRead_row) auto
  show ?thesis
    using assms(1,4,6) unfolding Next_body_def rd
    by (auto simp: Let_def streamCurrent_def isheader_iff)
qed

text \<open>A row equal to the header, read at a source start, is dropped.\<close>

lemma Next_body_drop:
  assumes "\<not> hasPending it"
    and "FieldsPerRecord (csvReader it) = int (length (header it))"
    and "upcoming (rc (csvReader it)) = (Rec row, meta) # rest"
    and "atStart it \<or> isSourceStart it meta"
    and "row = header it" "header it \<noteq> []"
  shows "Next_body it = (None, dropped it meta rest)"
proof -
  have rd: "csvRead (csvReader it) =
      ((row, None), (csvReader it)\<lparr>rc := (rc (csvReader it))\<lparr>upcoming := rest, published := meta\<rparr>\<rparr>)"
    using assms by (intro csvRead_row) auto
  show ?thesis
    using assms(1,4,5) unfolding Next_body_def rd dropped_def
    by (auto simp: Let_def streamCurrent_def isheader_iff)
qed

text \<open>Away from a source start a row is served at once.\<close>

lemma Next_body_direct:
  assumes "\<not> hasPending it"
    and "FieldsPerRecord (csvReader it) = int (length (header it))"
    and "upcoming (rc (csvReader it)) = (Rec row, meta) # rest"
    and "\<not> atStart it" "\<not> isSourceStart it meta"
    and "length row = length (header it)" "header it \<noteq> []"
  shows "Next_body it =
     (Some True, it\<lparr>csvReader := (csvReader it)\<lparr>rc := (rc (csvReader it))
                                     \<lparr>upcoming := rest, published := meta\<rparr>\<rparr>,
                    current := row, currentSrcMeta := meta, lastSourceMeta := meta\<rparr>)"
proof -
  have rd: "csvRead (csvReader it) =
      ((row, None), (csvReader it)\<lparr>rc := (rc (csvReader it))\<lparr>upcoming := rest, published := meta\<rparr>\<rparr>)"
    using assms by (intro csvRead_row) auto
  show ?thesis
    using assms(1,4,5) unfolding Next_body_def rd
    by (auto simp: Let_def streamCurrent_def)
qed

lemma Next_body_serve:
  "hasPending it \<Longrightarrow>
   Next_body it = (Some True, it\<lparr>current := pending it, currentSrcMeta := pendingSrcMeta it,
                                  hasPending := False\<rparr>)"
  by (simp add: Next_body_def)

lemma Next_body_eof_start:
  assumes "\<not> hasPending it" "upcoming (rc (csvReader it)) = []"
    and "atStart it \<or> isSourceStart it (final (rc (csvReader it)))"
  shows "Next_body it =
     (None, it\<lparr>csvReader := (csvReader it)\<lparr>rc := (rc (csvReader it))
                                \<lparr>published := final (rc (csvReader it))\<rparr>\<rparr>,
               atStart := False, lastSourceMeta := final (rc (csvReader it))\<rparr>)"
  using assms unfolding Next_body_def csvRead_eof[OF assms(2)]
  by (auto simp: Let_def streamCurrent_def)

lemma Next_body_eof_normal:
  assumes "\<not> hasPending it" "upcoming (rc (csvReader it)) = []"
    and "\<not> atStart it" "\<not> isSourceStart it (final (rc (csvReader it)))"
  shows "Next_body it =
     (Some False, it\<lparr>csvReader := (csvReader it)\<lparr>rc := (rc (csvReader it))
                                      \<lparr>published := final (rc (csvReader it))\<rparr>\<rparr>\<rparr>)"
  using assms unfolding Next_body_def csvRead_eof[OF assms(2)]
  by (auto simp: Let_def streamCurrent_def)

subsection \<open>Whole advances\<close>

text \<open>Classification and service of a non-matching first row happen in the same advance.\<close>

lemma Next_loop_hold_serve:
  assumes "\<not> hasPending it"
    and "FieldsPerRecord (csvReader it) = int (length (header it))"
    and "upcoming (rc (csvReader it)) = (Rec row, meta) # rest"
    and "atStart it \<or> isSourceStart it meta"
    and "length row = length (header it)" "row \<noteq> header it" "header it \<noteq> []"
  shows "\<exists>held it'.
           Next_body it = (None, held) \<and> hasPending held \<and> pending held = row
         \<and> pendingSrcMeta held = meta \<and> upcoming (rc (csvReader held)) = rest
         \<and> Next_body held = (Some True, it')
         \<and> Next_loop it = Some (True, it')
         \<and> current it' = row \<and> currentSrcMeta it' = meta
         \<and> upcoming (rc (csvReader it')) = rest
         \<and> decoderError it' = decoderError it \<and> \<not> hasPending it'"
proof -
  define held where "held = it\<lparr>csvReader := (csvReader it)\<lparr>rc := (rc (csvReader it))
                                \<lparr>upcoming := rest, published := meta\<rparr>\<rparr>,
               atStart := False, hasPending := True, pending := row, pendingSrcMeta := meta\<rparr>"
  define it' where "it' = held\<lparr>current := pending held, currentSrcMeta := pendingSrcMeta held,
               hasPending := False\<rparr>"
  have b1: "Next_body it = (None, held)"
    unfolding held_def using assms by (intro Next_body_hold) auto
  have b2: "Next_body held = (Some True, it')"
    unfolding it'_def by (rule Next_body_serve) (simp add: held_def)
  have n: "Next_loop it = Some (True, it')"
    using Next_loop_continue[OF b1] Next_loop_return[OF b2] by simp
  show ?thesis
    using b1 b2 n by (intro exI[of _ held] exI[of _ it']) (simp add: held_def it'_def)
qed

text \<open>
  At the end of the stream the loop returns false within two passes, provided the snapshot
  published at the end carries a source name.
\<close>

lemma Next_loop_clean_end:
  assumes "\<not> hasPending it" "upcoming (rc (csvReader it)) = []"
    and "Name (final (rc (csvReader it))) \<noteq> []"
  shows "\<exists>it'. Next_loop it = Some (False, it') \<and> decoderError it' = decoderError it
            \<and> \<not> hasPending it' \<and> upcoming (rc (csvReader it')) = []
            \<and> final (rc (csvReader it')) = final (rc (csvReader it))
            \<and> header it' = header it \<and> current it' = current it"
proof (cases "atStart it \<or> isSourceStart it (final (rc (csvReader it)))")
  case False
  then show ?thesis
    using Next_loop_return[OF Next_body_eof_normal[OF assms(1,2)]] assms by auto
next
  case True
  define f where "f = final (rc (csvReader it))"
  define it1 where "it1 = it\<lparr>csvReader := (csvReader it)\<lparr>rc := (rc (csvReader it))\<lparr>published := f\<rparr>\<rparr>,
               atStart := False, lastSourceMeta := f\<rparr>"
  have b1: "Next_body it = (None, it1)"
    unfolding it1_def f_def by (rule Next_body_eof_start[OF assms(1,2) True])
  have n1: "\<not> hasPending it1" "upcoming (rc (csvReader it1)) = []" "\<not> atStart it1"
    and f1: "final (rc (csvReader it1)) = f"
    using assms by (simp_all add: it1_def f_def)
  have "\<not> isSourceStart it1 f"
    using assms(3) by (simp add: isSourceStart_def it1_def f_def)
  then have "\<not> isSourceStart it1 (final (rc (csvReader it1)))" by (simp add: f1)
  from Next_loop_return[OF Next_body_eof_normal[OF n1(1,2,3) this]] Next_loop_continue[OF b1]
  have "Next_loop it = Some (False, it1\<lparr>csvReader := (csvReader it1)\<lparr>rc := (rc (csvReader it1))
                                          \<lparr>published := final (rc (csvReader it1))\<rparr>\<rparr>\<rparr>)"
    (is "_ = Some (False, ?r)") by simp
  moreover have "decoderError ?r = decoderError it \<and> \<not> hasPending ?r
            \<and> upcoming (rc (csvReader ?r)) = []
            \<and> final (rc (csvReader ?r)) = final (rc (csvReader it))
            \<and> header ?r = header it \<and> current ?r = current it"
    using assms by (simp add: it1_def f_def)
  ultimately show ?thesis by blast
qed

text \<open>
  When the snapshot published at the end has an empty name, every pass at the end of the
  stream is taken for a source start and continues: the loop returns nothing.
\<close>

lemma Next_loop_no_return:
  "Next_loop it = Some r \<Longrightarrow>
   \<not> (\<not> hasPending it \<and> upcoming (rc (csvReader it)) = []
      \<and> Name (final (rc (csvReader it))) = [])"
proof (induct rule: Next_loop.raw_induct[rotated 1, consumes 1])
  case (1 loop it r)
  show ?case
  proof
    assume d: "\<not> hasPending it \<and> upcoming (rc (csvReader it)) = []
         \<and> Name (final (rc (csvReader it))) = []"
    then have st: "atStart it \<or> isSourceStart it (final (rc (csvReader it)))"
      by (auto simp: isSourceStart_def)
    from d have np: "\<not> hasPending it" and up: "upcoming (rc (csvReader it)) = []" by auto
    note b = Next_body_eof_start[OF np up st]
    from 1(2) have "loop (snd (Next_body it)) = Some r" unfolding b by simp
    from 1(1)[OF this] d show False unfolding b by simp
  qed
qed

lemma Next_loop_hangs:
  "\<not> hasPending it \<Longrightarrow> upcoming (rc (csvReader it)) = [] \<Longrightarrow>
   Name (final (rc (csvReader it))) = [] \<Longrightarrow> Next_loop it = None"
  using Next_loop_no_return[of it] by (cases "Next_loop it") auto

subsection \<open>What holds of every iterator in use\<close>

text \<open>
  An iterator returned by \<open>Decode\<close> has no error and nothing pending, checks rows against
  the length of its header, and its header has no repeated name; an advance that returns
  keeps the header and the field count and leaves nothing pending.
\<close>

lemma Decode_iterator:
  assumes "Decode d s = Inr it"
  shows "decoderError it = None \<and> \<not> hasPending it \<and> \<not> atStart it \<and> distinct (header it)
       \<and> FieldsPerRecord (csvReader it) = int (length (header it))"
proof (cases "length (d_header d) = 0")
  case False
  with assms show ?thesis
    by (auto simp: Decode_def Decode_finish_def newIterator_def validateHeader_None[symmetric]
        split: option.splits)
next
  case True
  obtain row err r' where r: "csvRead \<lparr>FieldsPerRecord = 0, rc = s\<rparr> = ((row, err), r')"
    by (metis surj_pair)
  with assms True have "err = None" and "Decode_finish row r' = Inr it"
    by (auto simp: Decode_def split: option.splits)
  then show ?thesis
    by (auto simp: Decode_finish_def newIterator_def validateHeader_None[symmetric]
        split: option.splits)
qed

lemma Next_body_keeps:
  assumes "Next_body it = (c, it')"
  shows "header it' = header it
       \<and> (FieldsPerRecord (csvReader it) \<noteq> 0 \<longrightarrow>
            FieldsPerRecord (csvReader it') = FieldsPerRecord (csvReader it))
       \<and> (c \<noteq> None \<longrightarrow> \<not> hasPending it')"
proof (cases "hasPending it")
  case True
  with assms show ?thesis by (auto simp: Next_body_def)
next
  case False
  obtain row err r' where r: "csvRead (csvReader it) = ((row, err), r')" by (metis surj_pair)
  then have f: "FieldsPerRecord (csvReader it) \<noteq> 0 \<longrightarrow>
      FieldsPerRecord r' = FieldsPerRecord (csvReader it)"
    by (auto simp: csvRead_def Let_def split: list.splits csv_item.splits if_splits)
  from assms False r f show ?thesis
    by (auto simp: Next_body_def Let_def split: if_splits)
qed

lemma Next_loop_keeps:
  "Next_loop it = Some r \<Longrightarrow>
   header (snd r) = header it
   \<and> (FieldsPerRecord (csvReader it) \<noteq> 0 \<longrightarrow>
        FieldsPerRecord (csvReader (snd r)) = FieldsPerRecord (csvReader it))
   \<and> \<not> hasPending (snd r)"
proof (induct rule: Next_loop.raw_induct[rotated 1, consumes 1])
  case (1 loop it r)
  obtain c it' where b: "Next_body it = (c, it')" by (cases "Next_body it")
  note k = Next_body_keeps[OF b]
  show ?case
  proof (cases c)
    case None
    with 1(2) b have "loop it' = Some r" by simp
    from 1(1)[OF this] k show ?thesis by auto
  next
    case (Some bb)
    with 1(2) b have "r = (bb, it')" by simp
    with k Some show ?thesis by simp
  qed
qed

lemma Next_keeps:
  assumes "Next it = Some (b, it')" and "\<not> hasPending it"
    and "FieldsPerRecord (csvReader it) = int (length (header it))"
  shows "header it' = header it \<and> \<not> hasPending it'
       \<and> FieldsPerRecord (csvReader it') = int (length (header it'))"
proof (cases "decoderError it = None \<and> length (header it) \<noteq> 0")
  case True
  with assms(1) have "Next_loop it = Some (b, it')" by (simp add: Next_def)
  from Next_loop_keeps[OF this] True assms(3) show ?thesis by auto
next
  case False
  with assms show ?thesis by (auto simp: Next_def split: if_splits)
qed

subsection \<open>The sticky error\<close>

lemma Next_sticky: "decoderError it = Some e \<Longrightarrow> Next it = Some (False, it) \<and> Err it = Some e"
  by (simp add: Next_def Err_def)

lemma Next_body_error_kept:
  "decoderError it = None \<Longrightarrow> Next_body it = (c, it') \<Longrightarrow> c \<noteq> Some False \<Longrightarrow>
   decoderError it' = None"
  by (auto simp: Next_body_def Let_def split: if_splits prod.splits)

lemma Next_loop_true_no_error_aux:
  "Next_loop it = Some r \<Longrightarrow>
   decoderError it = None \<longrightarrow> fst r \<longrightarrow> decoderError (snd r) = None"
proof (induct rule: Next_loop.raw_induct[rotated 1, consumes 1])
  case (1 loop it r)
  obtain c it' where b: "Next_body it = (c, it')" by (cases "Next_body it")
  show ?case
  proof (intro impI)
    assume e: "decoderError it = None" and t: "fst r"
    show "decoderError (snd r) = None"
    proof (cases c)
      case None
      with 1(2) b have l: "loop it' = Some r" by simp
      have "decoderError it' = None" using Next_body_error_kept[OF e b] None by simp
      with 1(1)[OF l] t show ?thesis by simp
    next
      case (Some bb)
      with 1(2) b have r: "r = (bb, it')" by simp
      with t have "bb" by simp
      then have "c \<noteq> Some False" using Some by simp
      from Next_body_error_kept[OF e b this] r show ?thesis by simp
    qed
  qed
qed

text \<open>
  An advance that leaves an error behind returned false, and every later advance returns
  false with the same error.
\<close>

lemma Next_error_sticky:
  assumes "Next it = Some (b, it')" "Err it' = Some e"
  shows "\<not> b \<and> Next it' = Some (False, it') \<and> Err it' = Some e"
proof -
  have "\<not> b"
  proof (cases "decoderError it = None \<and> length (header it) \<noteq> 0")
    case True
    with assms(1) have "Next_loop it = Some (b, it')" by (simp add: Next_def)
    from Next_loop_true_no_error_aux[OF this] True assms(2) show ?thesis
      by (auto simp: Err_def)
  next
    case False
    with assms(1) show ?thesis by (auto simp: Next_def split: if_splits)
  qed
  with assms(2) show ?thesis by (simp add: Next_def Err_def)
qed

text \<open>A row with the wrong number of fields, or a row the parser rejects, ends the advance with an error.\<close>

lemma Next_body_parse_error:
  assumes "\<not> hasPending it" "header it \<noteq> []"
    and "FieldsPerRecord (csvReader it) = int (length (header it))"
    and "upcoming (rc (csvReader it)) = (item, meta) # rest"
    and "item = Bad msg \<and> e = Failure msg
         \<or> (\<exists>row. item = Rec row \<and> length row \<noteq> length (header it) \<and> e = ErrFieldCount)"
  shows "fst (Next_body it) = Some False \<and> decoderError (snd (Next_body it)) = Some e"
  using assms
  by (auto simp: Next_body_def csvRead_def Let_def)

subsection \<open>Claims\<close>

lemma validate_col: "validateHeader [''col1'', ''col2''] = None"
  by (simp add: validateHeader_def)

text \<open>
  C1, as stated: after a first row equal to the canonical header has been read at a source
  start, the decoder stays in the source-start classification state and classifies the next
  row of the same source. The code leaves that state: in the session below, source \<open>b\<close>
  repeats the header line; the first copy is dropped with \<open>atStart\<close> reset to false, and
  the second copy is served to the caller as a record.
\<close>

theorem header_row_state_counterexample:
  "Decode (NewCSVDecoder \<lparr>Comma = None, Header = None\<rparr>) repeated_header_stream
     = Inr repeated_header_it
   \<and> fst (Next_body repeated_header_it) = None
   \<and> atStart (snd (Next_body repeated_header_it)) = False
   \<and> map_option fst (Next repeated_header_it) = Some True
   \<and> map_option (current \<circ> snd) (Next repeated_header_it) = Some (header repeated_header_it)"
proof -
  let ?m0 = "\<lparr>Name = ''b'', ByteOffset = 0\<rparr>"
  let ?m1 = "\<lparr>Name = ''b'', ByteOffset = 20\<rparr>"
  let ?d = "dropped repeated_header_it ?m0 [(Rec [''col1'', ''col2''], ?m1)]"
  have d: "Decode (NewCSVDecoder \<lparr>Comma = None, Header = None\<rparr>) repeated_header_stream
      = Inr repeated_header_it"
    by (simp add: Decode_def NewCSVDecoder_def csvRead_def repeated_header_stream_def
        Decode_finish_def validate_col repeated_header_it_def)
  have b1: "Next_body repeated_header_it = (None, ?d)"
    by (rule Next_body_drop)
       (simp_all add: repeated_header_it_def newIterator_def repeated_header_stream_def
          isSourceStart_def streamCurrent_def)
  have b2: "Next_body ?d =
       (Some True, ?d\<lparr>csvReader := (csvReader ?d)\<lparr>rc := (rc (csvReader ?d))
                                       \<lparr>upcoming := [], published := ?m1\<rparr>\<rparr>,
            current := [''col1'', ''col2''], currentSrcMeta := ?m1, lastSourceMeta := ?m1\<rparr>)"
    by (rule Next_body_direct)
       (simp_all add: dropped_def repeated_header_it_def newIterator_def
          repeated_header_stream_def isSourceStart_def streamCurrent_def)
  have n: "Next repeated_header_it = Next_loop repeated_header_it"
    by (simp add: Next_def repeated_header_it_def newIterator_def)
  show ?thesis
    using d b1 Next_loop_continue[OF b1] Next_loop_return[OF b2]
    by (simp add: n dropped_def) (simp add: repeated_header_it_def newIterator_def)
qed

text \<open>
  C1, amended: for a decode session with a canonical header, when the first row read after a
  detected source start exactly matches the header, the decoder drops that row (no field of
  the iterator keeps it, so no caller is served it), records the row's snapshot as the last
  one observed, leaves the source-start state and goes on reading within the same advance.
  The following row is classified again only when its snapshot shows a new source start:
  so a source that is empty after its header yields no record and no error, and the first
  non-matching row of the next source is served; a following row that shows no source start
  is served directly as a record; and when the stream ends there, with a named source
  published, the advance returns false with no error.
\<close>

theorem matching_first_row_is_dropped:
  assumes "decoderError it = None" and "header it \<noteq> []" and "\<not> hasPending it"
    and "FieldsPerRecord (csvReader it) = int (length (header it))"
    and "upcoming (rc (csvReader it)) = (Rec row, meta) # rest"
    and "atStart it \<or> isSourceStart it meta"
    and "row = header it"
  shows "Next_body it = (None, dropped it meta rest)
       \<and> Next it = Next_loop (dropped it meta rest)
       \<and> (\<forall>row2 meta2 rest2.
             rest = (Rec row2, meta2) # rest2 \<and> length row2 = length (header it)
             \<and> Name meta2 \<noteq> Name meta \<and> row2 \<noteq> header it \<longrightarrow>
             (\<exists>it'. Next it = Some (True, it') \<and> current it' = row2 \<and> currentSrcMeta it' = meta2
                   \<and> decoderError it' = None \<and> upcoming (rc (csvReader it')) = rest2))
       \<and> (\<forall>row2 meta2 rest2.
             rest = (Rec row2, meta2) # rest2 \<and> length row2 = length (header it)
             \<and> \<not> isSourceStart (dropped it meta rest) meta2 \<longrightarrow>
             (\<exists>it'. Next it = Some (True, it') \<and> current it' = row2 \<and> currentSrcMeta it' = meta2
                   \<and> decoderError it' = None \<and> upcoming (rc (csvReader it')) = rest2))
       \<and> (rest = [] \<and> Name (final (rc (csvReader it))) \<noteq> [] \<longrightarrow>
             (\<exists>it'. Next it = Some (False, it') \<and> Err it' = None \<and> current it' = current it))"
proof -
  let ?d = "dropped it meta rest"
  have b: "Next_body it = (None, ?d)"
    using assms by (intro Next_body_drop) auto
  have n: "Next it = Next_loop ?d"
    using assms(1,2) Next_loop_continue[OF b] by (simp add: Next_def)
  have dprops: "decoderError ?d = None" "header ?d = header it" "\<not> hasPending ?d" "\<not> atStart ?d"
    "FieldsPerRecord (csvReader ?d) = int (length (header ?d))"
    "upcoming (rc (csvReader ?d)) = rest" "lastSourceMeta ?d = meta"
    "final (rc (csvReader ?d)) = final (rc (csvReader it))" "current ?d = current it"
    using assms by (simp_all add: dropped_def)
  have next_src: "\<exists>it'. Next it = Some (True, it') \<and> current it' = row2 \<and> currentSrcMeta it' = meta2
                   \<and> decoderError it' = None \<and> upcoming (rc (csvReader it')) = rest2"
    if r: "rest = (Rec row2, meta2) # rest2" "length row2 = length (header it)"
       "Name meta2 \<noteq> Name meta" "row2 \<noteq> header it" for row2 meta2 rest2
  proof -
    have st: "atStart ?d \<or> isSourceStart ?d meta2"
      using r(3) by (simp add: isSourceStart_def dprops)
    have u: "upcoming (rc (csvReader ?d)) = (Rec row2, meta2) # rest2" using r(1) dprops(6) by simp
    have "\<exists>held it'. Next_body ?d = (None, held) \<and> hasPending held \<and> pending held = row2
         \<and> pendingSrcMeta held = meta2 \<and> upcoming (rc (csvReader held)) = rest2
         \<and> Next_body held = (Some True, it')
         \<and> Next_loop ?d = Some (True, it')
         \<and> current it' = row2 \<and> currentSrcMeta it' = meta2
         \<and> upcoming (rc (csvReader it')) = rest2
         \<and> decoderError it' = decoderError ?d \<and> \<not> hasPending it'"
      by (rule Next_loop_hold_serve[OF dprops(3,5) u st])
         (simp_all add: dropped_def r(2,4) assms(2))
    then obtain it' where "Next_loop ?d = Some (True, it')" "current it' = row2"
        "currentSrcMeta it' = meta2" "upcoming (rc (csvReader it')) = rest2"
        "decoderError it' = decoderError ?d" by blast
    then show ?thesis unfolding n using dprops(1) by auto
  qed
  have same_src: "\<exists>it'. Next it = Some (True, it') \<and> current it' = row2 \<and> currentSrcMeta it' = meta2
                   \<and> decoderError it' = None \<and> upcoming (rc (csvReader it')) = rest2"
    if r: "rest = (Rec row2, meta2) # rest2" "length row2 = length (header it)"
       "\<not> isSourceStart ?d meta2" for row2 meta2 rest2
  proof -
    have "upcoming (rc (csvReader ?d)) = (Rec row2, meta2) # rest2" using r dprops by simp
    from Next_loop_return[OF Next_body_direct[OF dprops(3,5) this dprops(4) r(3)]]
      r(2) assms(2) dprops(2)
    have "Next_loop ?d = Some (True, ?d\<lparr>csvReader := (csvReader ?d)\<lparr>rc := (rc (csvReader ?d))
                 \<lparr>upcoming := rest2, published := meta2\<rparr>\<rparr>,
               current := row2, currentSrcMeta := meta2, lastSourceMeta := meta2\<rparr>)"
      (is "_ = Some (True, ?r)")
      by simp
    moreover have "current ?r = row2 \<and> currentSrcMeta ?r = meta2
                   \<and> decoderError ?r = None \<and> upcoming (rc (csvReader ?r)) = rest2"
      using dprops(1) by simp
    ultimately show ?thesis unfolding n by blast
  qed
  have at_end: "\<exists>it'. Next it = Some (False, it') \<and> Err it' = None \<and> current it' = current it"
    if r: "rest = []" "Name (final (rc (csvReader it))) \<noteq> []"
  proof -
    have "Name (final (rc (csvReader ?d))) \<noteq> []" using r(2) dprops(8) by simp
    from Next_loop_clean_end[OF dprops(3) _ this] r(1) dprops(6)
    obtain it' where "Next_loop ?d = Some (False, it')" "decoderError it' = decoderError ?d"
       "current it' = current ?d" by auto
    then show ?thesis unfolding n Err_def using dprops(1,9) by auto
  qed
  show ?thesis
  proof (intro conjI allI impI)
    show "Next_body it = (None, ?d)" by (rule b)
    show "Next it = Next_loop ?d" by (rule n)
  next
    fix row2 meta2 rest2
    assume "rest = (Rec row2, meta2) # rest2 \<and> length row2 = length (header it)
             \<and> Name meta2 \<noteq> Name meta \<and> row2 \<noteq> header it"
    then show "\<exists>it'. Next it = Some (True, it') \<and> current it' = row2 \<and> currentSrcMeta it' = meta2
                   \<and> decoderError it' = None \<and> upcoming (rc (csvReader it')) = rest2"
      using next_src by blast
  next
    fix row2 meta2 rest2
    assume "rest = (Rec row2, meta2) # rest2 \<and> length row2 = length (header it)
             \<and> \<not> isSourceStart ?d meta2"
    then show "\<exists>it'. Next it = Some (True, it') \<and> current it' = row2 \<and> currentSrcMeta it' = meta2
                   \<and> decoderError it' = None \<and> upcoming (rc (csvReader it')) = rest2"
      using same_src by blast
  next
    assume "rest = [] \<and> Name (final (rc (csvReader it))) \<noteq> []"
    then show "\<exists>it'. Next it = Some (False, it') \<and> Err it' = None \<and> current it' = current it"
      using at_end by blast
  qed
qed

theorem matching_first_row_is_dropped_witness:
  "fst (Next_body header_skip_it) = None
   \<and> current (snd (Next_body header_skip_it)) = current header_skip_it
   \<and> \<not> hasPending (snd (Next_body header_skip_it))
   \<and> map_option fst (Next header_skip_it) = Some True
   \<and> map_option (current \<circ> snd) (Next header_skip_it) = Some [''a2'', ''b2'']
   \<and> map_option (Name \<circ> currentSrcMeta \<circ> snd) (Next header_skip_it) = Some ''b''"
proof -
  let ?m0 = "\<lparr>Name = ''b'', ByteOffset = 0\<rparr>"
  let ?m1 = "\<lparr>Name = ''b'', ByteOffset = 16\<rparr>"
  have h: "decoderError header_skip_it = None" "header header_skip_it \<noteq> []"
    "\<not> hasPending header_skip_it"
    "FieldsPerRecord (csvReader header_skip_it) = int (length (header header_skip_it))"
    "upcoming (rc (csvReader header_skip_it)) =
       (Rec [''col1'', ''col2''], ?m0) # [(Rec [''a2'', ''b2''], ?m1)]"
    "atStart header_skip_it \<or> isSourceStart header_skip_it ?m0"
    "[''col1'', ''col2''] = header header_skip_it"
    by (simp_all add: header_skip_it_def newIterator_def isSourceStart_def streamCurrent_def)
  note t = matching_first_row_is_dropped[OF h]
  from t have b: "Next_body header_skip_it
      = (None, dropped header_skip_it ?m0 [(Rec [''a2'', ''b2''], ?m1)])" by blast
  have "\<not> isSourceStart (dropped header_skip_it ?m0 [(Rec [''a2'', ''b2''], ?m1)]) ?m1"
    by (simp add: isSourceStart_def dropped_def)
  moreover have "length [''a2'', ''b2''] = length (header header_skip_it)"
    by (simp add: header_skip_it_def newIterator_def)
  moreover from t have "\<forall>row2 meta2 rest2.
       [(Rec [''a2'', ''b2''], ?m1)] = (Rec row2, meta2) # rest2
       \<and> length row2 = length (header header_skip_it)
       \<and> \<not> isSourceStart (dropped header_skip_it ?m0 [(Rec [''a2'', ''b2''], ?m1)]) meta2 \<longrightarrow>
       (\<exists>it'. Next header_skip_it = Some (True, it') \<and> current it' = row2
             \<and> currentSrcMeta it' = meta2 \<and> decoderError it' = None
             \<and> upcoming (rc (csvReader it')) = rest2)"
    by blast
  ultimately obtain it' where "Next header_skip_it = Some (True, it')"
    "current it' = [''a2'', ''b2'']" "currentSrcMeta it' = ?m1"
    by blast
  with b h(3) show ?thesis by (simp add: dropped_def)
qed

text \<open>
  C2: for a decode session with a canonical header, a first row read after a detected source
  start that has the header's field count but differs from the header is not dropped. The
  pass that reads it puts it in the pushback slot together with the snapshot seen at that
  moment; the next pass serves exactly that row with that snapshot, and the advance returns
  true while every later row is still unread.
\<close>

theorem nonmatching_first_row_is_served:
  assumes "decoderError it = None" and "header it \<noteq> []" and "\<not> hasPending it"
    and "FieldsPerRecord (csvReader it) = int (length (header it))"
    and "upcoming (rc (csvReader it)) = (Rec row, meta) # rest"
    and "atStart it \<or> isSourceStart it meta"
    and "length row = length (header it)" and "row \<noteq> header it"
  shows "\<exists>held it'.
           Next_body it = (None, held) \<and> hasPending held \<and> pending held = row
         \<and> pendingSrcMeta held = meta \<and> upcoming (rc (csvReader held)) = rest
         \<and> Next_body held = (Some True, it')
         \<and> Next it = Some (True, it')
         \<and> current it' = row \<and> currentSrcMeta it' = meta
         \<and> upcoming (rc (csvReader it')) = rest
         \<and> decoderError it' = None \<and> \<not> hasPending it'"
proof -
  have n: "Next it = Next_loop it" using assms(1,2) by (simp add: Next_def)
  from Next_loop_hold_serve[OF assms(3,4,5,6,7,8,2)] show ?thesis
    unfolding n assms(1) .
qed

theorem nonmatching_first_row_is_served_witness:
  "isSourceStart mismatching_it \<lparr>Name = ''b'', ByteOffset = 0\<rparr>
   \<and> [''x'', ''y''] \<noteq> header mismatching_it
   \<and> map_option fst (Next mismatching_it) = Some True
   \<and> map_option (current \<circ> snd) (Next mismatching_it) = Some [''x'', ''y'']
   \<and> map_option (currentSrcMeta \<circ> snd) (Next mismatching_it)
       = Some \<lparr>Name = ''b'', ByteOffset = 0\<rparr>
   \<and> map_option (upcoming \<circ> rc \<circ> csvReader \<circ> snd) (Next mismatching_it)
       = Some [(Rec [''a2'', ''b2''], \<lparr>Name = ''b'', ByteOffset = 10\<rparr>)]"
proof -
  let ?m0 = "\<lparr>Name = ''b'', ByteOffset = 0\<rparr>"
  let ?m1 = "\<lparr>Name = ''b'', ByteOffset = 10\<rparr>"
  have h: "decoderError mismatching_it = None" "header mismatching_it \<noteq> []"
    "\<not> hasPending mismatching_it"
    "FieldsPerRecord (csvReader mismatching_it) = int (length (header mismatching_it))"
    "upcoming (rc (csvReader mismatching_it)) =
       (Rec [''x'', ''y''], ?m0) # [(Rec [''a2'', ''b2''], ?m1)]"
    "atStart mismatching_it \<or> isSourceStart mismatching_it ?m0"
    "length [''x'', ''y''] = length (header mismatching_it)"
    "[''x'', ''y''] \<noteq> header mismatching_it"
    by (simp_all add: mismatching_it_def newIterator_def isSourceStart_def streamCurrent_def)
  from nonmatching_first_row_is_served[OF h] h(6,8) show ?thesis
    by (auto simp: mismatching_it_def newIterator_def)
qed

text \<open>
  C4, at the inputs where the code departs from it. With an explicit header \<open>a,b\<close> and one
  source whose name is the empty string, \<open>Decode\<close> succeeds and the first advance serves
  the row \<open>1,2\<close>; the source then ends cleanly, and the second advance never returns: every
  pass reads end-of-file, takes it for a source start because the last observed name is
  empty, and continues. The same happens on the first advance when there is no source at
  all. (The sticky error itself holds: \<open>Next_sticky\<close>, \<open>Next_error_sticky\<close>; so does
  the clean end when a source name is published: \<open>Next_loop_clean_end\<close>.)
\<close>

theorem Next_never_returns_without_source_name:
  "Decode (NewCSVDecoder \<lparr>Comma = None, Header = Some [''a'', ''b'']\<rparr>) unnamed_source_stream
     = Inr unnamed_source_it
   \<and> map_option fst (Next unnamed_source_it) = Some True
   \<and> map_option (current \<circ> snd) (Next unnamed_source_it) = Some [''1'', ''2'']
   \<and> map_option (decoderError \<circ> snd) (Next unnamed_source_it) = Some None
   \<and> Option.bind (Next unnamed_source_it) (Next \<circ> snd) = None
   \<and> Decode (NewCSVDecoder \<lparr>Comma = None, Header = Some [''a'', ''b'']\<rparr>) no_source_stream
     = Inr no_source_it
   \<and> Next no_source_it = None"
proof -
  have v: "validateHeader [''a'', ''b''] = None" by (simp add: validateHeader_def)
  have d1: "Decode (NewCSVDecoder \<lparr>Comma = None, Header = Some [''a'', ''b'']\<rparr>)
      unnamed_source_stream = Inr unnamed_source_it"
    by (simp add: Decode_def NewCSVDecoder_def Decode_finish_def v unnamed_source_it_def)
  have d2: "Decode (NewCSVDecoder \<lparr>Comma = None, Header = Some [''a'', ''b'']\<rparr>)
      no_source_stream = Inr no_source_it"
    by (simp add: Decode_def NewCSVDecoder_def Decode_finish_def v no_source_it_def)
  have n0: "Next no_source_it = Next_loop no_source_it"
    by (simp add: Next_def no_source_it_def newIterator_def)
  have "Next_loop no_source_it = None"
    by (rule Next_loop_hangs)
       (simp_all add: no_source_it_def newIterator_def no_source_stream_def zeroMeta_def)
  with n0 have h0: "Next no_source_it = None" by simp
  have n1: "Next unnamed_source_it = Next_loop unnamed_source_it"
    by (simp add: Next_def unnamed_source_it_def newIterator_def)
  have "\<exists>held it'. Next_body unnamed_source_it = (None, held) \<and> hasPending held
         \<and> pending held = [''1'', ''2'']
         \<and> pendingSrcMeta held = \<lparr>Name = [], ByteOffset = 4\<rparr>
         \<and> upcoming (rc (csvReader held)) = []
         \<and> Next_body held = (Some True, it')
         \<and> Next_loop unnamed_source_it = Some (True, it')
         \<and> current it' = [''1'', ''2''] \<and> currentSrcMeta it' = \<lparr>Name = [], ByteOffset = 4\<rparr>
         \<and> upcoming (rc (csvReader it')) = []
         \<and> decoderError it' = decoderError unnamed_source_it \<and> \<not> hasPending it'"
    by (rule Next_loop_hold_serve)
       (simp_all add: unnamed_source_it_def newIterator_def unnamed_source_stream_def
          isSourceStart_def streamCurrent_def)
  then obtain held it' where s: "Next_body unnamed_source_it = (None, held)"
      "Next_body held = (Some True, it')"
      "Next_loop unnamed_source_it = Some (True, it')" "current it' = [''1'', ''2'']"
      "upcoming (rc (csvReader it')) = []" "decoderError it' = decoderError unnamed_source_it"
      "\<not> hasPending it'" by blast
  have e: "decoderError it' = None"
    using s(6) by (simp add: unnamed_source_it_def newIterator_def)
  have f: "final (rc (csvReader it')) = \<lparr>Name = [], ByteOffset = 4\<rparr>"
    using s(1,2)
    by (auto simp: Next_body_def csvRead_def Let_def unnamed_source_it_def newIterator_def
        unnamed_source_stream_def split: if_splits)
  have hd: "header it' = [''a'', ''b'']"
    using s(1,2)
    by (auto simp: Next_body_def csvRead_def Let_def unnamed_source_it_def newIterator_def
        unnamed_source_stream_def split: if_splits)
  have "Next_loop it' = None"
    by (rule Next_loop_hangs) (simp_all add: s f)
  then have "Next it' = None" using e hd by (simp add: Next_def)
  with d1 d2 h0 s e show ?thesis by (simp add: n1)
qed

text \<open>
  C9: \<open>Decode\<close> returns an error and no iterator, hence no record, when the configured
  header has a repeated name, when no header is configured and the first row of the stream
  has a repeated name, and when no header is configured and the stream has no first row.
\<close>

theorem decode_configuration_errors:
  fixes opt :: CSVDecoderOptions and s :: rowStream
  defines "h \<equiv> d_header (NewCSVDecoder opt)"
  shows "(h \<noteq> [] \<and> \<not> distinct h \<longrightarrow>
            (\<exists>name. Decode (NewCSVDecoder opt) s = Inl (MalformedHeader (DuplicateEntry name h))))
       \<and> (h = [] \<and> (\<exists>row meta rest. upcoming s = (Rec row, meta) # rest \<and> \<not> distinct row) \<longrightarrow>
            (\<exists>name row. Decode (NewCSVDecoder opt) s
                 = Inl (MalformedHeader (DuplicateEntry name row))))
       \<and> (h = [] \<and> upcoming s = [] \<longrightarrow>
            Decode (NewCSVDecoder opt) s = Inl (InferHeaderError EOF))"
proof (intro conjI impI)
  assume a: "h \<noteq> [] \<and> \<not> distinct h"
  then obtain name where "validateHeader h = Some (DuplicateEntry name h)"
    using validateHeader_dup by blast
  with a show "\<exists>name. Decode (NewCSVDecoder opt) s = Inl (MalformedHeader (DuplicateEntry name h))"
    unfolding h_def by (auto simp: Decode_def Decode_finish_def)
next
  assume a: "h = [] \<and> (\<exists>row meta rest. upcoming s = (Rec row, meta) # rest \<and> \<not> distinct row)"
  then obtain row meta rest where u: "upcoming s = (Rec row, meta) # rest" and d: "\<not> distinct row"
    by blast
  from d obtain name where "validateHeader row = Some (DuplicateEntry name row)"
    using validateHeader_dup by blast
  with a u show "\<exists>name row. Decode (NewCSVDecoder opt) s
      = Inl (MalformedHeader (DuplicateEntry name row))"
    unfolding h_def by (auto simp: Decode_def Decode_finish_def csvRead_def)
next
  assume "h = [] \<and> upcoming s = []"
  then show "Decode (NewCSVDecoder opt) s = Inl (InferHeaderError EOF)"
    unfolding h_def by (simp add: Decode_def csvRead_def)
qed

theorem decode_configuration_errors_witness:
  "(\<exists>name. Decode (NewCSVDecoder \<lparr>Comma = None, Header = Some [''col1'', ''col1'']\<rparr>)
             no_source_stream
           = Inl (MalformedHeader (DuplicateEntry name [''col1'', ''col1''])))
   \<and> (\<exists>name row. Decode (NewCSVDecoder \<lparr>Comma = None, Header = None\<rparr>)
             (no_source_stream\<lparr>upcoming := [(Rec [''col1'', ''col1''], zeroMeta)]\<rparr>)
           = Inl (MalformedHeader (DuplicateEntry name row)))
   \<and> Decode (NewCSVDecoder \<lparr>Comma = None, Header = None\<rparr>) no_source_stream
       = Inl (InferHeaderError EOF)"
  using decode_configuration_errors[of "\<lparr>Comma = None, Header = Some [''col1'', ''col1'']\<rparr>"
          no_source_stream]
        decode_configuration_errors[of "\<lparr>Comma = None, Header = None\<rparr>"
          "no_source_stream\<lparr>upcoming := [(Rec [''col1'', ''col1''], zeroMeta)]\<rparr>"]
        decode_configuration_errors[of "\<lparr>Comma = None, Header = None\<rparr>" no_source_stream]
  by (simp add: NewCSVDecoder_def no_source_stream_def)

section \<open>Properties of the multiplexer\<close>

declare overwriteLatest.simps [simp del]
declare drainAndCloseChannel.simps [simp del]
declare ReadAll.simps [simp del]

subsection \<open>Channel and pipe\<close>

lemma overwriteLatest_latest: "overwriteLatest ch v = ch\<lparr>queue := [v]\<rparr>"
proof (induction ch v rule: overwriteLatest.induct)
  case (1 ch v)
  show ?case
  proof (cases "length (queue ch) < 1")
    case True
    then show ?thesis by (subst overwriteLatest.simps) simp
  next
    case False
    with 1 show ?thesis by (subst overwriteLatest.simps) simp
  qed
qed

lemma drainAndCloseChannel_result: "drainAndCloseChannel ch = ch\<lparr>queue := [], closed := True\<rparr>"
proof (induction ch rule: drainAndCloseChannel.induct)
  case (1 ch)
  show ?case
  proof (cases "queue ch \<noteq> []")
    case True
    with 1 show ?thesis by (subst drainAndCloseChannel.simps) simp
  next
    case False
    then show ?thesis by (subst drainAndCloseChannel.simps) simp
  qed
qed

lemma emit_fields [simp]:
  "pipe (emit es m) = pipe m" "mcurrent (emit es m) = mcurrent m"
  "boundary (emit es m) = boundary m" "trace (emit es m) = trace m @ es"
  by (simp_all add: emit_def)

lemma forward_open:
  assumes "pipe_open m"
  shows "\<exists>meta' m'. forward k chunk meta m = Inr (meta', m')
           \<and> pipe m' = (pipe m)\<lparr>buf := buf (pipe m) @ chunk\<rparr>
           \<and> boundary m' = boundary m"
  using assms by (auto simp: forward_def pwWrite_def pipe_open_def Let_def)

subsection \<open>What the producer leaves in the pipe\<close>

lemma streamBytes_pipe:
  assumes "pipe_open m"
  shows "fst (streamBytes k nm rd meta m) = (outcome rd = EOF)
       \<and> pipe (snd (streamBytes k nm rd meta m)) =
           (pipe m)\<lparr>buf := buf (pipe m) @ payload rd,
                     werr := (if outcome rd = EOF then None
                              else Some (ReadError nm (outcome rd)))\<rparr>
       \<and> boundary (snd (streamBytes k nm rd meta m)) = boundary m"
  using assms
proof (induction rd arbitrary: meta m)
  case Nil
  then show ?case by (simp add: pipe_open_def)
next
  case (Cons x rd)
  obtain chunk rerr where x: "x = (chunk, rerr)" by (cases x)
  from forward_open[OF Cons.prems, of k chunk meta]
  obtain meta' m' where f: "forward k chunk meta m = Inr (meta', m')"
    and p: "pipe m' = (pipe m)\<lparr>buf := buf (pipe m) @ chunk\<rparr>"
    and b: "boundary m' = boundary m" by blast
  have o: "pipe_open m'" using Cons.prems p by (simp add: pipe_open_def)
  show ?case
  proof (cases rerr)
    case None
    with Cons.IH[OF o, of meta'] x f p b show ?thesis by simp
  next
    case (Some e)
    with x f p b Cons.prems show ?thesis
      by (simp add: abort_read_def pwCloseWithError_def pipe_open_def)
  qed
qed

lemma announce_fields [simp]:
  "pipe (announce k meta m) = pipe m"
  "boundary (announce k meta m) = (boundary m)\<lparr>queue := [meta]\<rparr>"
  "mcurrent (announce k meta m) = Some meta"
  "trace (announce k meta m) = trace m @ [Opened k, Stored meta, Published k meta]"
  by (simp_all add: announce_def Let_def overwriteLatest_latest)

lemma pipe_open_announce [simp]: "pipe_open (announce k meta m) = pipe_open m"
  by (simp add: pipe_open_def)

lemma produce_pipe:
  assumes "pipe_open m"
  shows "pipe (produce k ops m) =
           (pipe m)\<lparr>buf := buf (pipe m) @ merged_bytes ops,
                     werr := (if terminal_error ops = EOF then None
                              else Some (terminal_error ops))\<rparr>"
  using assms
proof (induction ops arbitrary: k m)
  case Nil
  then show ?case by (simp add: pipe_open_def)
next
  case (Cons opn ops)
  show ?case
  proof (cases "opOpen opn")
    case (Inl err)
    with Cons.prems show ?thesis
      by (simp add: abort_open_def pwCloseWithError_def pipe_open_def)
  next
    case (Inr rd)
    let ?meta = "\<lparr>Name = opName opn, ByteOffset = 0\<rparr>"
    let ?r = "streamBytes k (opName opn) rd ?meta (announce k ?meta m)"
    have o: "pipe_open (announce k ?meta m)" using Cons.prems by simp
    note s = streamBytes_pipe[OF o, of k "opName opn" rd ?meta]
    show ?thesis
    proof (cases "outcome rd = EOF")
      case True
      with s have ok: "fst ?r" and p: "pipe (snd ?r) = (pipe m)\<lparr>buf := buf (pipe m) @ payload rd\<rparr>"
        using Cons.prems by (simp_all add: pipe_open_def)
      have "pipe_open (snd ?r)" using p Cons.prems by (simp add: pipe_open_def)
      from Cons.IH[OF this, of "Suc k"] ok p Inr True show ?thesis
        by (simp add: case_prod_beta)
    next
      case False
      with s Inr show ?thesis by (simp add: case_prod_beta)
    qed
  qed
qed

lemma producer_pipe:
  assumes "pipe_open m"
  shows "pipe (producer ops m) =
           (pipe m)\<lparr>buf := buf (pipe m) @ merged_bytes ops, werr := Some (terminal_error ops)\<rparr>"
  using produce_pipe[OF assms, of 0 ops]
  by (simp add: producer_def Let_def pwClose_def pwCloseWithError_def)

lemma producer_boundary: "boundary (producer ops m) = (boundary (produce 0 ops m))\<lparr>queue := [], closed := True\<rparr>"
  by (simp add: producer_def Let_def drainAndCloseChannel_result)

lemma pipe_open_New [simp]: "pipe_open NewMuxReader"
  by (simp add: pipe_open_def NewMuxReader_def)

lemma NewMuxReader_fields [simp]:
  "buf (pipe NewMuxReader) = []" "trace NewMuxReader = []" "mcurrent NewMuxReader = None"
  by (simp_all add: NewMuxReader_def)

subsection \<open>Reading to the end\<close>

lemma ReadAll_drains:
  assumes "n > 0" "\<not> rclosed (pipe m)" "werr (pipe m) = Some e"
  shows "ReadAll n m = Some (buf (pipe m), e)"
  using assms
proof (induction "length (buf (pipe m))" arbitrary: m rule: less_induct)
  case less
  show ?case
  proof (cases "buf (pipe m) = []")
    case True
    with less.prems show ?thesis
      by (subst ReadAll.simps) (simp add: Read_def prRead_def)
  next
    case False
    let ?m' = "m\<lparr>pipe := (pipe m)\<lparr>buf := drop n (buf (pipe m))\<rparr>\<rparr>"
    have r: "Read m n = Some ((take n (buf (pipe m)), None), ?m')"
      using False less.prems by (simp add: Read_def prRead_def)
    have "length (buf (pipe ?m')) < length (buf (pipe m))"
      using False less.prems(1) by simp
    from less.hyps[OF this] less.prems
    have "ReadAll n ?m' = Some (drop n (buf (pipe m)), e)" by simp
    with r less.prems(1) show ?thesis
      by (subst ReadAll.simps) simp
  qed
qed

lemma ReadAll_producer:
  assumes "n > 0"
  shows "ReadAll n (producer ops NewMuxReader) = Some (merged_bytes ops, terminal_error ops)"
proof -
  have p: "pipe (producer ops NewMuxReader) =
      \<lparr>buf = merged_bytes ops, werr = Some (terminal_error ops), rclosed = False\<rparr>"
    using producer_pipe[OF pipe_open_New, of ops] by (simp add: NewMuxReader_def)
  from ReadAll_drains[OF assms, of "producer ops NewMuxReader" "terminal_error ops"] p
  show ?thesis by simp
qed

subsection \<open>Runs described by their sources\<close>

lemma clean_prefix_bytes:
  assumes "\<forall>opn\<in>set before. reads_cleanly opn"
  shows "merged_bytes (before @ rest) = concat (map source_payload before) @ merged_bytes rest
       \<and> terminal_error (before @ rest) = terminal_error rest"
  using assms
  by (induction before) (auto simp: reads_cleanly_def source_payload_def split: sum.splits)

lemma payload_prefix:
  assumes "\<forall>x\<in>set pre. snd x = None"
  shows "payload (pre @ rd) = concat (map fst pre) @ payload rd
       \<and> outcome (pre @ rd) = outcome rd"
  using assms by (induction pre) auto

subsection \<open>The order of the producer's effects\<close>

lemma boundary_events_append [simp]:
  "boundary_events (A @ B) = boundary_events A @ boundary_events B"
  by (simp add: boundary_events_def)

lemma opened_sources_append [simp]:
  "opened_sources (A @ B) = opened_sources A @ opened_sources B"
  by (simp add: opened_sources_def)

lemma boundary_events_Cons [simp]:
  "boundary_events [] = []"
  "boundary_events (Published j meta # T) = meta # boundary_events T"
  "boundary_events (Opened j # T) = boundary_events T"
  "boundary_events (Stored meta # T) = boundary_events T"
  "boundary_events (Wrote j c # T) = boundary_events T"
  "boundary_events (Aborted err # T) = boundary_events T"
  by (simp_all add: boundary_events_def)

lemma opened_sources_Cons [simp]:
  "opened_sources [] = []"
  "opened_sources (Opened j # T) = j # opened_sources T"
  "opened_sources (Published j meta # T) = opened_sources T"
  "opened_sources (Stored meta # T) = opened_sources T"
  "opened_sources (Wrote j c # T) = opened_sources T"
  "opened_sources (Aborted err # T) = opened_sources T"
  by (simp_all add: opened_sources_def)

lemma data_events_append [simp]:
  "data_events k (A @ B) \<longleftrightarrow> data_events k A \<and> data_events k B"
  by (simp add: data_events_def)

lemma data_events_none:
  "data_events k W \<Longrightarrow> boundary_events W = [] \<and> opened_sources W = []"
  by (induction W) (auto simp: data_events_def split: event.splits)

lemma data_events_set:
  "data_events k W \<Longrightarrow> e \<in> set W \<Longrightarrow>
   (\<forall>j c. e = Wrote j c \<longrightarrow> j = k) \<and> (\<forall>j meta. e \<noteq> Published j meta) \<and> (\<forall>j. e \<noteq> Opened j)"
  by (auto simp: data_events_def list_all_iff split: event.splits)

lemma data_events_guarded: "data_events k W \<Longrightarrow> k \<in> S \<Longrightarrow> guarded S W"
  by (induction W arbitrary: S) (auto simp: data_events_def split: event.splits)

lemma guarded_mono: "guarded S T \<Longrightarrow> S \<subseteq> S' \<Longrightarrow> guarded S' T"
proof (induction S T arbitrary: S' rule: guarded.induct)
  case (2 S j meta T)
  then have "insert j S \<subseteq> insert j S'" by auto
  with 2 show ?case by simp
qed auto

lemma guarded_append:
  "guarded S A \<Longrightarrow> guarded (S \<union> {j. \<exists>meta. Published j meta \<in> set A}) B \<Longrightarrow> guarded S (A @ B)"
proof (induction S A rule: guarded.induct)
  case (2 S j meta T)
  have "insert j S \<union> {i. \<exists>meta. Published i meta \<in> set T}
      = S \<union> {i. \<exists>m. Published i m \<in> set (Published j meta # T)}" by auto
  with 2 show ?case by simp
qed auto

lemma guarded_split:
  "guarded S T \<Longrightarrow> T = T1 @ Wrote j c # T2 \<Longrightarrow> j \<in> S \<or> (\<exists>meta. Published j meta \<in> set T1)"
proof (induction T1 arbitrary: S T)
  case Nil
  then show ?case by simp
next
  case (Cons e T1)
  then obtain T' where T: "T = e # T'" and T': "T' = T1 @ Wrote j c # T2" by auto
  show ?case
  proof (cases e)
    case (Published i meta)
    with Cons.prems(1) T have "guarded (insert i S) T'" by simp
    from Cons.IH[OF this T'] Published show ?thesis by auto
  next
    case (Wrote i d)
    with Cons.prems(1) T have "guarded S T'" by simp
    from Cons.IH[OF this T'] show ?thesis by auto
  next
    case (Opened i)
    with Cons.prems(1) T have "guarded S T'" by simp
    from Cons.IH[OF this T'] show ?thesis by auto
  next
    case (Stored meta)
    with Cons.prems(1) T have "guarded S T'" by simp
    from Cons.IH[OF this T'] show ?thesis by auto
  next
    case (Aborted err)
    with Cons.prems(1) T have "guarded S T'" by simp
    from Cons.IH[OF this T'] show ?thesis by auto
  qed
qed

lemma forward_trace:
  "forward k chunk meta m = r \<Longrightarrow>
   \<exists>W. trace (case r of Inl m' \<Rightarrow> m' | Inr (meta', m') \<Rightarrow> m') = trace m @ W \<and> data_events k W"
  by (auto simp: forward_def Let_def data_events_def split: if_splits sum.splits)

lemma streamBytes_trace:
  "\<exists>W. trace (snd (streamBytes k nm rd meta m)) = trace m @ W \<and> data_events k W"
proof (induction rd arbitrary: meta m)
  case Nil
  show ?case by (simp add: data_events_def)
next
  case (Cons x rd)
  obtain chunk rerr where x: "x = (chunk, rerr)" by (cases x)
  show ?case
  proof (cases "forward k chunk meta m")
    case (Inl m')
    from forward_trace[OF Inl] Inl x show ?thesis by simp
  next
    case (Inr p)
    obtain meta1 m1 where p: "p = (meta1, m1)" by (cases p)
    from forward_trace[OF Inr] p
    obtain W1 where w1: "trace m1 = trace m @ W1" "data_events k W1" by auto
    show ?thesis
    proof (cases rerr)
      case None
      from Cons.IH[of meta1 m1] obtain W2 where
        "trace (snd (streamBytes k nm rd meta1 m1)) = trace m1 @ W2" "data_events k W2" by blast
      with w1 None Inr p x show ?thesis by simp
    next
      case (Some e)
      with w1 Inr p x show ?thesis by (simp add: abort_read_def data_events_def)
    qed
  qed
qed

text \<open>
  The trace of the outer loop: the sources it opens are an initial part of the list, each
  opened source has exactly one boundary event, with its name and offset zero, in the order
  of the list, and writes come after the boundary of their source.
\<close>

lemma produce_trace:
  "\<exists>W n. trace (produce k ops m) = trace m @ W
       \<and> n \<le> length ops
       \<and> opened_sources W = [k..<k + n]
       \<and> boundary_events W = map (\<lambda>opn. \<lparr>Name = opName opn, ByteOffset = 0\<rparr>) (take n ops)
       \<and> guarded {} W
       \<and> (\<forall>j meta. Published j meta \<in> set W \<longrightarrow>
             k \<le> j \<and> j < k + length ops \<and> meta = \<lparr>Name = opName (ops ! (j - k)), ByteOffset = 0\<rparr>)
       \<and> (\<forall>j c. Wrote j c \<in> set W \<longrightarrow> k \<le> j \<and> j < k + length ops)"
proof (induction ops arbitrary: k m)
  case Nil
  show ?case by simp
next
  case (Cons opn ops)
  show ?case
  proof (cases "opOpen opn")
    case (Inl err)
    have "trace (produce k (opn # ops) m) = trace m @ [Aborted (OpenError (opName opn) err)]"
      using Inl by (simp add: abort_open_def)
    then show ?thesis
      by (intro exI[of _ "[Aborted (OpenError (opName opn) err)]"] exI[of _ 0]) simp
  next
    case (Inr rd)
    let ?meta = "\<lparr>Name = opName opn, ByteOffset = 0\<rparr>"
    let ?A = "[Opened k, Stored ?meta, Published k ?meta]"
    let ?r = "streamBytes k (opName opn) rd ?meta (announce k ?meta m)"
    from streamBytes_trace[of k "opName opn" rd ?meta "announce k ?meta m"]
    obtain W1 where w1: "trace (snd ?r) = trace m @ ?A @ W1" and d1: "data_events k W1"
      by auto
    note n1 = data_events_none[OF d1]
    have A: "opened_sources ?A = [k]" "boundary_events ?A = [?meta]"
      by simp_all
    have g1: "guarded {} (?A @ W1)"
      using data_events_guarded[OF d1, of "{k}"] by simp
    show ?thesis
    proof (cases "fst ?r")
      case False
      then have t: "trace (produce k (opn # ops) m) = trace m @ (?A @ W1)"
        using Inr w1 by (simp add: case_prod_beta)
      have "Suc 0 \<le> length (opn # ops)" by simp
      moreover have "opened_sources (?A @ W1) = [k..<k + Suc 0]" using A n1 by simp
      moreover have "boundary_events (?A @ W1)
          = map (\<lambda>opn. \<lparr>Name = opName opn, ByteOffset = 0\<rparr>) (take (Suc 0) (opn # ops))"
        using A n1 by simp
      moreover have "\<forall>j meta. Published j meta \<in> set (?A @ W1) \<longrightarrow>
             k \<le> j \<and> j < k + length (opn # ops)
             \<and> meta = \<lparr>Name = opName ((opn # ops) ! (j - k)), ByteOffset = 0\<rparr>"
        using data_events_set[OF d1] by auto
      moreover have "\<forall>j c. Wrote j c \<in> set (?A @ W1) \<longrightarrow> k \<le> j \<and> j < k + length (opn # ops)"
        using data_events_set[OF d1] by auto
      ultimately show ?thesis using t g1 by blast
    next
      case True
      from Cons.IH[of "Suc k" "snd ?r"] obtain W2 n where
        t2: "trace (produce (Suc k) ops (snd ?r)) = trace (snd ?r) @ W2"
        and n: "n \<le> length ops"
        and o2: "opened_sources W2 = [Suc k..<Suc k + n]"
        and b2: "boundary_events W2 = map (\<lambda>opn. \<lparr>Name = opName opn, ByteOffset = 0\<rparr>) (take n ops)"
        and g2: "guarded {} W2"
        and p2: "\<forall>j meta. Published j meta \<in> set W2 \<longrightarrow>
             Suc k \<le> j \<and> j < Suc k + length ops
             \<and> meta = \<lparr>Name = opName (ops ! (j - Suc k)), ByteOffset = 0\<rparr>"
        and w2: "\<forall>j c. Wrote j c \<in> set W2 \<longrightarrow> Suc k \<le> j \<and> j < Suc k + length ops"
        by blast
      have t: "trace (produce k (opn # ops) m) = trace m @ ((?A @ W1) @ W2)"
        using Inr True w1 t2 by (simp add: case_prod_beta)
      have "Suc n \<le> length (opn # ops)" using n by simp
      moreover have "opened_sources ((?A @ W1) @ W2) = [k..<k + Suc n]"
        using A n1 o2 by (simp add: upt_conv_Cons)
      moreover have "boundary_events ((?A @ W1) @ W2)
          = map (\<lambda>opn. \<lparr>Name = opName opn, ByteOffset = 0\<rparr>) (take (Suc n) (opn # ops))"
        using A n1 b2 by simp
      moreover have "guarded {} ((?A @ W1) @ W2)"
        by (rule guarded_append[OF g1]) (rule guarded_mono[OF g2], simp)
      moreover have "\<forall>j meta. Published j meta \<in> set ((?A @ W1) @ W2) \<longrightarrow>
             k \<le> j \<and> j < k + length (opn # ops)
             \<and> meta = \<lparr>Name = opName ((opn # ops) ! (j - k)), ByteOffset = 0\<rparr>"
      proof (intro allI impI)
        fix j meta assume "Published j meta \<in> set ((?A @ W1) @ W2)"
        then consider "j = k \<and> meta = ?meta" | "Published j meta \<in> set W2"
          using data_events_set[OF d1] by auto
        then show "k \<le> j \<and> j < k + length (opn # ops)
             \<and> meta = \<lparr>Name = opName ((opn # ops) ! (j - k)), ByteOffset = 0\<rparr>"
        proof cases
          case 1
          then show ?thesis by simp
        next
          case 2
          with p2 have j: "Suc k \<le> j" "j < Suc k + length ops"
            "meta = \<lparr>Name = opName (ops ! (j - Suc k)), ByteOffset = 0\<rparr>" by auto
          from j(1) have "j - k = Suc (j - Suc k)" by simp
          with j show ?thesis by simp
        qed
      qed
      moreover have "\<forall>j c. Wrote j c \<in> set ((?A @ W1) @ W2) \<longrightarrow>
             k \<le> j \<and> j < k + length (opn # ops)"
        using data_events_set[OF d1] w2 by auto
      ultimately show ?thesis using t by blast
    qed
  qed
qed

lemma producer_trace: "trace (producer ops m) = trace (produce 0 ops m)"
  by (simp add: producer_def Let_def)

lemma producer_mcurrent: "mcurrent (producer ops m) = mcurrent (produce 0 ops m)"
  by (simp add: producer_def Let_def)

lemma Opened_in_opened_sources: "Opened k \<in> set T \<longleftrightarrow> k \<in> set (opened_sources T)"
  by (induction T rule: guarded.induct[of _ "{}"]) auto

text \<open>Over a list of sources that read cleanly the loop does not stop early.\<close>

lemma produce_append:
  assumes "pipe_open m" "\<forall>opn\<in>set before. reads_cleanly opn"
  shows "produce k (before @ rest) m = produce (k + length before) rest (produce k before m)
       \<and> pipe_open (produce k before m)"
  using assms
proof (induction before arbitrary: k m)
  case Nil
  then show ?case by simp
next
  case (Cons opn before)
  from Cons.prems(2) obtain rd where rd: "opOpen opn = Inr rd" and o: "outcome rd = EOF"
    by (auto simp: reads_cleanly_def split: sum.splits)
  let ?meta = "\<lparr>Name = opName opn, ByteOffset = 0\<rparr>"
  let ?r = "streamBytes k (opName opn) rd ?meta (announce k ?meta m)"
  have op: "pipe_open (announce k ?meta m)" using Cons.prems(1) by simp
  from streamBytes_pipe[OF op, of k "opName opn" rd ?meta] o
  have ok: "fst ?r" and p: "pipe_open (snd ?r)"
    using Cons.prems(1) by (simp_all add: pipe_open_def)
  from Cons.IH[OF p, of "Suc k"] Cons.prems(2)
  have "produce (Suc k) (before @ rest) (snd ?r)
      = produce (Suc k + length before) rest (produce (Suc k) before (snd ?r))"
    and "pipe_open (produce (Suc k) before (snd ?r))" by simp_all
  with rd ok show ?case by (simp add: case_prod_beta)
qed

text \<open>
  When every source but the last reads cleanly and the last one opens, the run opens every
  source of the list.
\<close>

lemma produce_opens_clean:
  assumes "pipe_open m" "\<forall>opn\<in>set ops. reads_cleanly opn"
  shows "opened_sources (trace (produce k ops m)) = opened_sources (trace m) @ [k..<k + length ops]"
  using assms
proof (induction ops arbitrary: k m)
  case Nil
  then show ?case by simp
next
  case (Cons opn ops)
  from Cons.prems(2) obtain rd where rd: "opOpen opn = Inr rd" and o: "outcome rd = EOF"
    by (auto simp: reads_cleanly_def split: sum.splits)
  let ?meta = "\<lparr>Name = opName opn, ByteOffset = 0\<rparr>"
  let ?r = "streamBytes k (opName opn) rd ?meta (announce k ?meta m)"
  have op: "pipe_open (announce k ?meta m)" using Cons.prems(1) by simp
  from streamBytes_pipe[OF op, of k "opName opn" rd ?meta] o
  have ok: "fst ?r" and p: "pipe_open (snd ?r)"
    using Cons.prems(1) by (simp_all add: pipe_open_def)
  from streamBytes_trace[of k "opName opn" rd ?meta "announce k ?meta m"]
  obtain W where "trace (snd ?r) = trace (announce k ?meta m) @ W" "data_events k W" by blast
  then have os: "opened_sources (trace (snd ?r)) = opened_sources (trace m) @ [k]"
    using data_events_none[of k W] by simp
  from Cons.IH[OF p, of "Suc k"] Cons.prems(2) os
  have i: "opened_sources (trace (produce (Suc k) ops (snd ?r)))
      = (opened_sources (trace m) @ [k]) @ [Suc k..<Suc k + length ops]" by simp
  have u: "[k..<k + length (opn # ops)] = k # [Suc k..<Suc k + length ops]"
    by (simp add: upt_rec)
  have "produce k (opn # ops) m = produce (Suc k) ops (snd ?r)"
    using rd ok by (simp add: case_prod_beta)
  then show ?case unfolding u using i by simp
qed

lemma all_opened:
  assumes "\<forall>opn\<in>set before. reads_cleanly opn" and "opOpen last_src = Inr rd"
  shows "\<forall>k<length (before @ [last_src]).
           Opened k \<in> set (trace (producer (before @ [last_src]) NewMuxReader))"
proof -
  let ?m = "produce 0 before NewMuxReader"
  let ?n = "length before"
  let ?meta = "\<lparr>Name = opName last_src, ByteOffset = 0\<rparr>"
  let ?r = "streamBytes ?n (opName last_src) rd ?meta (announce ?n ?meta ?m)"
  from produce_append[OF pipe_open_New assms(1), of 0 "[last_src]"]
  have e: "produce 0 (before @ [last_src]) NewMuxReader = produce ?n [last_src] ?m"
    by simp
  from produce_opens_clean[OF pipe_open_New assms(1), of 0]
  have o: "opened_sources (trace ?m) = [0..<?n]" by simp
  from streamBytes_trace[of ?n "opName last_src" rd ?meta "announce ?n ?meta ?m"]
  obtain W where w: "trace (snd ?r) = trace (announce ?n ?meta ?m) @ W" by blast
  have "produce ?n [last_src] ?m = snd ?r"
    using assms(2) by (simp add: case_prod_beta)
  then have "opened_sources (trace (produce ?n [last_src] ?m))
      = [0..<?n] @ [?n] @ opened_sources W"
    using o w by simp
  then have s: "set [0..<Suc ?n]
      \<subseteq> set (opened_sources (trace (producer (before @ [last_src]) NewMuxReader)))"
    unfolding producer_trace e by auto
  show ?thesis
  proof (intro allI impI)
    fix k assume "k < length (before @ [last_src])"
    then have "k \<in> set [0..<Suc ?n]" by auto
    with s show "Opened k \<in> set (trace (producer (before @ [last_src]) NewMuxReader))"
      unfolding Opened_in_opened_sources by blast
  qed
qed

subsection \<open>Claims\<close>

text \<open>
  C3: when a read of a source returns \<open>n > 0\<close> bytes together with an error other than
  \<open>io.EOF\<close>, and the pipe is open, the loop writes those bytes to the pipe and stores the
  advanced offset in \<open>current\<close> before it closes the pipe with an error that names the source.
  A consumer that reads the stream to its end therefore receives the bytes of the earlier
  sources, the bytes of this source's earlier reads and the bytes of the failing read, and
  then that error from \<open>Read\<close>.
\<close>

theorem partial_bytes_before_read_error:
  assumes "e \<noteq> EOF"
  shows "(pipe_open m \<and> chunk \<noteq> [] \<longrightarrow>
            fst (streamBytes k nm ((chunk, Some e) # rest) meta m) = False
          \<and> buf (pipe (snd (streamBytes k nm ((chunk, Some e) # rest) meta m)))
              = buf (pipe m) @ chunk
          \<and> werr (pipe (snd (streamBytes k nm ((chunk, Some e) # rest) meta m)))
              = Some (ReadError nm e)
          \<and> Current (snd (streamBytes k nm ((chunk, Some e) # rest) meta m))
              = meta\<lparr>ByteOffset := ByteOffset meta + of_nat (length chunk)\<rparr>
          \<and> trace (snd (streamBytes k nm ((chunk, Some e) # rest) meta m))
              = trace m @ [Wrote k chunk,
                           Stored (meta\<lparr>ByteOffset := ByteOffset meta + of_nat (length chunk)\<rparr>),
                           Aborted (ReadError nm e)])
       \<and> ((\<forall>opn\<in>set before. reads_cleanly opn)
            \<and> opOpen src = Inr (pre @ (chunk, Some e) # rest)
            \<and> (\<forall>x\<in>set pre. snd x = None) \<and> n > 0 \<longrightarrow>
            ReadAll n (producer (before @ src # after) NewMuxReader)
              = Some (concat (map source_payload before) @ concat (map fst pre) @ chunk,
                      ReadError (opName src) e))"
proof (intro conjI impI)
  assume "pipe_open m \<and> chunk \<noteq> []"
  then have o: "pipe_open m" and c: "chunk \<noteq> []" by simp_all
  let ?r = "streamBytes k nm ((chunk, Some e) # rest) meta m"
  let ?meta' = "meta\<lparr>ByteOffset := ByteOffset meta + of_nat (length chunk)\<rparr>"
  have f: "forward k chunk meta m =
      Inr (?meta', emit [Wrote k chunk, Stored ?meta']
                     (m\<lparr>pipe := (pipe m)\<lparr>buf := buf (pipe m) @ chunk\<rparr>, mcurrent := Some ?meta'\<rparr>))"
    using o c by (simp add: forward_def pwWrite_def pipe_open_def Let_def)
  have r: "?r = (False, abort_read nm e (emit [Wrote k chunk, Stored ?meta']
                     (m\<lparr>pipe := (pipe m)\<lparr>buf := buf (pipe m) @ chunk\<rparr>, mcurrent := Some ?meta'\<rparr>)))"
    using assms by (simp add: f)
  show "fst ?r = False" unfolding r by simp
  show "buf (pipe (snd ?r)) = buf (pipe m) @ chunk"
    unfolding r using o by (simp add: abort_read_def pwCloseWithError_def pipe_open_def)
  show "werr (pipe (snd ?r)) = Some (ReadError nm e)"
    unfolding r using o by (simp add: abort_read_def pwCloseWithError_def pipe_open_def)
  show "Current (snd ?r) = ?meta'"
    unfolding r by (simp add: abort_read_def Current_def)
  show "trace (snd ?r) = trace m @ [Wrote k chunk, Stored ?meta', Aborted (ReadError nm e)]"
    unfolding r by (simp add: abort_read_def)
next
  assume a: "(\<forall>opn\<in>set before. reads_cleanly opn)
            \<and> opOpen src = Inr (pre @ (chunk, Some e) # rest)
            \<and> (\<forall>x\<in>set pre. snd x = None) \<and> n > 0"
  then have pre: "\<forall>x\<in>set pre. snd x = None" and n: "n > 0"
    and b: "\<forall>opn\<in>set before. reads_cleanly opn"
    and s: "opOpen src = Inr (pre @ (chunk, Some e) # rest)" by auto
  have "payload (pre @ (chunk, Some e) # rest) = concat (map fst pre) @ chunk"
    and "outcome (pre @ (chunk, Some e) # rest) = e"
    using payload_prefix[OF pre, of "(chunk, Some e) # rest"] by simp_all
  with s assms have "merged_bytes (src # after) = concat (map fst pre) @ chunk"
    and "terminal_error (src # after) = ReadError (opName src) e" by simp_all
  with clean_prefix_bytes[OF b, of "src # after"] ReadAll_producer[OF n, of "before @ src # after"]
  show "ReadAll n (producer (before @ src # after) NewMuxReader)
      = Some (concat (map source_payload before) @ concat (map fst pre) @ chunk,
              ReadError (opName src) e)"
    by simp
qed

theorem partial_bytes_before_read_error_witness:
  "buf (pipe (snd (streamBytes 0 ''a'' [(''abc'', Some (Failure ''injected read error''))]
                     \<lparr>Name = ''a'', ByteOffset = 0\<rparr> NewMuxReader))) = ''abc''
   \<and> Current (snd (streamBytes 0 ''a'' [(''abc'', Some (Failure ''injected read error''))]
                     \<lparr>Name = ''a'', ByteOffset = 0\<rparr> NewMuxReader))
       = \<lparr>Name = ''a'', ByteOffset = 3\<rparr>
   \<and> ReadAll 512 (producer abc_with_error NewMuxReader)
       = Some (''abc'', ReadError ''a'' (Failure ''injected read error''))
   \<and> ReadAll 512 (producer (hello_world @ abc_with_error) NewMuxReader)
       = Some (''helloWORLDabc'', ReadError ''a'' (Failure ''injected read error''))
   \<and> ReadAll 512 (producer abc_then_error NewMuxReader)
       = Some (''abc'', ReadError ''a'' (Failure ''injected read error''))"
proof -
  let ?e = "Failure ''injected read error''"
  let ?src = "\<lparr>opName = ''a'', opOpen = Inr [(''abc'', Some ?e)]\<rparr>"
  let ?src2 = "\<lparr>opName = ''a'', opOpen = Inr [(''abc'', None), ([], Some ?e)]\<rparr>"
  have h: "?e \<noteq> EOF" by simp
  have c: "\<forall>opn\<in>set hello_world. reads_cleanly opn"
    by (simp add: hello_world_def reads_cleanly_def)
  note t = partial_bytes_before_read_error[OF h, of NewMuxReader "''abc''" 0 "''a''" "[]"
      "\<lparr>Name = ''a'', ByteOffset = 0\<rparr>" hello_world ?src "[]" 512 "[]"]
  note u = partial_bytes_before_read_error[OF h, of NewMuxReader "''abc''" 0 "''a''" "[]"
      "\<lparr>Name = ''a'', ByteOffset = 0\<rparr>" "[]" ?src "[]" 512 "[]"]
  note v = partial_bytes_before_read_error[OF h, of NewMuxReader "[]" 0 "''a''" "[]"
      "\<lparr>Name = ''a'', ByteOffset = 0\<rparr>" "[]" ?src2 "[(''abc'', None)]" 512 "[]"]
  from t have 1: "buf (pipe (snd (streamBytes 0 ''a'' [(''abc'', Some ?e)]
                     \<lparr>Name = ''a'', ByteOffset = 0\<rparr> NewMuxReader))) = ''abc''"
    and 2: "Current (snd (streamBytes 0 ''a'' [(''abc'', Some ?e)]
                     \<lparr>Name = ''a'', ByteOffset = 0\<rparr> NewMuxReader))
       = \<lparr>Name = ''a'', ByteOffset = 3\<rparr>"
    by (simp_all del: streamBytes.simps)
  from u have 3: "ReadAll 512 (producer [?src] NewMuxReader) = Some (''abc'', ReadError ''a'' ?e)"
    by (simp del: streamBytes.simps)
  from t c have 4: "ReadAll 512 (producer (hello_world @ [?src]) NewMuxReader)
       = Some (''helloWORLDabc'', ReadError ''a'' ?e)"
    by (simp add: hello_world_def source_payload_def del: streamBytes.simps)
  from v have 5: "ReadAll 512 (producer [?src2] NewMuxReader) = Some (''abc'', ReadError ''a'' ?e)"
    by (simp del: streamBytes.simps)
  from 1 2 3 4 5 show ?thesis
    by (simp add: abc_with_error_def abc_then_error_def del: streamBytes.simps)
qed

text \<open>
  C5: when every source of the list opens and none of its reads fails, a consumer that
  reads the stream to its end receives the payloads of the sources one after the other, in
  the order of the list, and then \<open>io.EOF\<close>. With no source at all the first \<open>Read\<close> returns
  no byte and \<open>io.EOF\<close>, and \<open>AwaitBoundary\<close> returns \<open>io.EOF\<close>.
\<close>

theorem drain_yields_concatenation:
  assumes "\<forall>opn\<in>set ops. reads_cleanly opn" and "n > 0"
  shows "ReadAll n (producer ops NewMuxReader) = Some (concat (map source_payload ops), EOF)
       \<and> Read (producer [] NewMuxReader) n
           = Some (([], Some EOF), producer [] NewMuxReader)
       \<and> AwaitBoundary (producer [] NewMuxReader) False
           = [((zeroMeta, Some EOF), producer [] NewMuxReader)]"
proof -
  from clean_prefix_bytes[OF assms(1), of "[]"] ReadAll_producer[OF assms(2), of ops]
  have "ReadAll n (producer ops NewMuxReader) = Some (concat (map source_payload ops), EOF)"
    by simp
  moreover have "Read (producer [] NewMuxReader) n
           = Some (([], Some EOF), producer [] NewMuxReader)"
    using producer_pipe[OF pipe_open_New, of "[]"]
    by (simp add: Read_def prRead_def NewMuxReader_def)
  moreover have "AwaitBoundary (producer [] NewMuxReader) False
           = [((zeroMeta, Some EOF), producer [] NewMuxReader)]"
    by (simp add: AwaitBoundary_def producer_boundary)
  ultimately show ?thesis by simp
qed

theorem drain_yields_concatenation_witness:
  "ReadAll 512 (producer hello_world NewMuxReader) = Some (''helloWORLD'', EOF)
   \<and> ReadAll 3 (producer hello_world NewMuxReader) = Some (''helloWORLD'', EOF)
   \<and> Read (producer [] NewMuxReader) 1 = Some (([], Some EOF), producer [] NewMuxReader)"
proof -
  have c: "\<forall>opn\<in>set hello_world. reads_cleanly opn"
    by (simp add: hello_world_def reads_cleanly_def)
  from drain_yields_concatenation[OF c, of 512] drain_yields_concatenation[OF c, of 3]
    drain_yields_concatenation[OF c, of 1]
  show ?thesis by (simp add: hello_world_def source_payload_def)
qed

text \<open>
  Over sources that read cleanly the boundary channel holds, after the loop, the boundary of
  the last of them.
\<close>

lemma produce_boundary_clean:
  assumes "pipe_open m" "\<forall>opn\<in>set ops. reads_cleanly opn"
  shows "boundary (produce k ops m)
           = (if ops = [] then boundary m
              else (boundary m)\<lparr>queue := [boundary_of (last ops)]\<rparr>)"
  using assms
proof (induction ops arbitrary: k m)
  case Nil
  then show ?case by simp
next
  case (Cons opn ops)
  from Cons.prems(2) obtain rd where rd: "opOpen opn = Inr rd" and o: "outcome rd = EOF"
    by (auto simp: reads_cleanly_def split: sum.splits)
  let ?meta = "\<lparr>Name = opName opn, ByteOffset = 0\<rparr>"
  let ?r = "streamBytes k (opName opn) rd ?meta (announce k ?meta m)"
  have op: "pipe_open (announce k ?meta m)" using Cons.prems(1) by simp
  from streamBytes_pipe[OF op, of k "opName opn" rd ?meta] o
  have ok: "fst ?r" and p: "pipe_open (snd ?r)"
    and b: "boundary (snd ?r) = (boundary m)\<lparr>queue := [?meta]\<rparr>"
    using Cons.prems(1) by (simp_all add: pipe_open_def)
  have e: "produce k (opn # ops) m = produce (Suc k) ops (snd ?r)"
    using rd ok by (simp add: case_prod_beta)
  from Cons.IH[OF p, of "Suc k"] Cons.prems(2) b show ?case
    unfolding e by (simp add: boundary_of_def)
qed

lemma boundary_events_all_opened:
  assumes "\<forall>k<length ops. Opened k \<in> set (trace (producer ops NewMuxReader))"
  shows "boundary_events (trace (producer ops NewMuxReader)) = map boundary_of ops"
proof -
  let ?T = "trace (producer ops NewMuxReader)"
  from produce_trace[of 0 ops NewMuxReader] obtain n where
    n: "n \<le> length ops"
    and o: "opened_sources ?T = [0..<n]"
    and b: "boundary_events ?T = map (\<lambda>opn. \<lparr>Name = opName opn, ByteOffset = 0\<rparr>) (take n ops)"
    by (auto simp: producer_trace)
  have "n = length ops"
  proof (rule ccontr)
    assume "n \<noteq> length ops"
    with n have l: "n < length ops" by simp
    with assms have "Opened n \<in> set ?T" by blast
    then have "n \<in> set [0..<n]" using o by (simp add: Opened_in_opened_sources)
    then show False by simp
  qed
  with b show ?thesis by (simp add: boundary_of_def)
qed

text \<open>
  C6: let every source of the list open, and every source but the last read cleanly, so
  that the run opens all \<open>N\<close> sources. Then for every source \<open>j\<close> of the list the run
  comes to that source and publishes its boundary: right after the publication the slot of
  the boundary channel holds exactly the event with the source's name and
  \<open>ByteOffset = 0\<close>, \<open>AwaitBoundary\<close> returns it, \<open>Current\<close> is that event, and the pipe has
  received the bytes of the sources before \<open>j\<close> and no byte of source \<open>j\<close>. The bytes of
  source \<open>j\<close> are written after that, with the channel left as it is. Before the
  publication the channel holds the boundary of source \<open>j - 1\<close> (nothing, for the first
  source), so the channel takes the boundaries of the \<open>N\<close> sources one after the other
  in the order of the list; the producer's record of its publications is exactly that list.
\<close>

theorem boundary_published_before_bytes:
  assumes "\<forall>opn\<in>set ops. \<exists>rd. opOpen opn = Inr rd"
    and "\<forall>opn\<in>set (butlast ops). reads_cleanly opn"
    and "j < length ops"
  shows "produce 0 ops NewMuxReader = produce j (drop j ops) (reached ops j)
       \<and> (\<exists>rd. opOpen (ops ! j) = Inr rd
             \<and> produce j (drop j ops) (reached ops j)
                 = (if fst (streamBytes j (opName (ops ! j)) rd (boundary_of (ops ! j))
                              (at_boundary ops j))
                    then produce (Suc j) (drop (Suc j) ops)
                           (snd (streamBytes j (opName (ops ! j)) rd (boundary_of (ops ! j))
                                   (at_boundary ops j)))
                    else snd (streamBytes j (opName (ops ! j)) rd (boundary_of (ops ! j))
                                (at_boundary ops j)))
             \<and> buf (pipe (snd (streamBytes j (opName (ops ! j)) rd (boundary_of (ops ! j))
                                  (at_boundary ops j))))
                 = buf (pipe (at_boundary ops j)) @ payload rd
             \<and> boundary (snd (streamBytes j (opName (ops ! j)) rd (boundary_of (ops ! j))
                                 (at_boundary ops j)))
                 = boundary (at_boundary ops j))
       \<and> boundary (at_boundary ops j)
           = \<lparr>queue = [\<lparr>Name = opName (ops ! j), ByteOffset = 0\<rparr>], closed = False\<rparr>
       \<and> AwaitBoundary (at_boundary ops j) False
           = [((\<lparr>Name = opName (ops ! j), ByteOffset = 0\<rparr>, None),
               (at_boundary ops j)\<lparr>boundary := \<lparr>queue = [], closed = False\<rparr>\<rparr>)]
       \<and> Current (at_boundary ops j) = \<lparr>Name = opName (ops ! j), ByteOffset = 0\<rparr>
       \<and> buf (pipe (at_boundary ops j)) = concat (map source_payload (take j ops))
       \<and> werr (pipe (at_boundary ops j)) = None
       \<and> boundary (reached ops j)
           = (if j = 0 then \<lparr>queue = [], closed = False\<rparr>
              else boundary (at_boundary ops (j - 1)))
       \<and> boundary_events (trace (producer ops NewMuxReader))
           = map (\<lambda>opn. \<lparr>Name = opName opn, ByteOffset = 0\<rparr>) ops"
proof -
  let ?meta = "boundary_of (ops ! j)"
  let ?a = "at_boundary ops j"
  have sub: "set (take i ops) \<subseteq> set (butlast ops)" if "i < length ops" for i
  proof -
    from that have "take i ops = take i (butlast ops)" by (simp add: butlast_conv_take)
    then show ?thesis by (metis set_take_subset)
  qed
  have cl: "\<forall>opn\<in>set (take i ops). reads_cleanly opn" if "i < length ops" for i
    using sub[OF that] assms(2) by blast
  have split: "take j ops @ drop j ops = ops" by simp
  from produce_append[OF pipe_open_New cl[OF assms(3)], of 0 "drop j ops"] assms(3)
  have run: "produce 0 ops NewMuxReader = produce j (drop j ops) (reached ops j)"
    and po: "pipe_open (reached ops j)"
    by (simp_all add: reached_def min_def)
  have bnew: "boundary NewMuxReader = \<lparr>queue = [], closed = False\<rparr>"
    by (simp add: NewMuxReader_def)
  have breached: "boundary (reached ops i)
      = (if i = 0 then \<lparr>queue = [], closed = False\<rparr>
         else \<lparr>queue = [boundary_of (ops ! (i - 1))], closed = False\<rparr>)"
    if "i < length ops" for i
  proof (cases "i = 0")
    case True
    then show ?thesis by (simp add: reached_def bnew)
  next
    case False
    with that have ne: "take i ops \<noteq> []" by auto
    have l: "last (take i ops) = ops ! (i - 1)"
      using that False ne by (simp add: last_conv_nth min_def)
    from produce_boundary_clean[OF pipe_open_New cl[OF that], of 0] ne l False
    show ?thesis by (simp add: reached_def bnew)
  qed
  have ba: "boundary (at_boundary ops i) = \<lparr>queue = [boundary_of (ops ! i)], closed = False\<rparr>"
    if "i < length ops" for i
    using breached[OF that] by (simp add: at_boundary_def)
  from assms(1,3) obtain rd where rd: "opOpen (ops ! j) = Inr rd"
    by (meson nth_mem)
  have d: "drop j ops = ops ! j # drop (Suc j) ops"
    using assms(3) by (simp add: Cons_nth_drop_Suc)
  let ?r = "streamBytes j (opName (ops ! j)) rd ?meta ?a"
  have step: "produce j (drop j ops) (reached ops j)
      = (if fst ?r then produce (Suc j) (drop (Suc j) ops) (snd ?r) else snd ?r)"
    unfolding d using rd
    by (simp add: case_prod_beta at_boundary_def boundary_of_def)
  have pa: "pipe_open ?a" using po by (simp add: at_boundary_def)
  from streamBytes_pipe[OF pa, of j "opName (ops ! j)" rd ?meta]
  have sb: "buf (pipe (snd ?r)) = buf (pipe ?a) @ payload rd"
    and sbd: "boundary (snd ?r) = boundary ?a" by simp_all
  have bufa: "buf (pipe ?a) = concat (map source_payload (take j ops))"
    using produce_pipe[OF pipe_open_New, of 0 "take j ops"]
      clean_prefix_bytes[OF cl[OF assms(3)], of "[]"]
    by (simp add: at_boundary_def reached_def)
  have wa: "werr (pipe ?a) = None" using pa by (simp add: pipe_open_def)
  have cur: "Current ?a = \<lparr>Name = opName (ops ! j), ByteOffset = 0\<rparr>"
    by (simp add: at_boundary_def Current_def boundary_of_def)
  have bj: "boundary ?a = \<lparr>queue = [\<lparr>Name = opName (ops ! j), ByteOffset = 0\<rparr>], closed = False\<rparr>"
    using ba[OF assms(3)] by (simp add: boundary_of_def)
  have aw: "AwaitBoundary ?a False
      = [((\<lparr>Name = opName (ops ! j), ByteOffset = 0\<rparr>, None),
          ?a\<lparr>boundary := \<lparr>queue = [], closed = False\<rparr>\<rparr>)]"
    by (simp add: AwaitBoundary_def bj)
  have prev: "boundary (reached ops j)
      = (if j = 0 then \<lparr>queue = [], closed = False\<rparr> else boundary (at_boundary ops (j - 1)))"
  proof (cases "j = 0")
    case True
    with breached[OF assms(3)] show ?thesis by simp
  next
    case False
    with assms(3) have "j - 1 < length ops" by simp
    from ba[OF this] breached[OF assms(3)] False show ?thesis by simp
  qed
  have ne: "ops \<noteq> []" using assms(3) by auto
  then have bl: "butlast ops @ [last ops] = ops" by simp
  from assms(1) ne obtain rdl where "opOpen (last ops) = Inr rdl" by (meson last_in_set)
  from all_opened[OF assms(2) this] bl
  have "\<forall>k<length ops. Opened k \<in> set (trace (producer ops NewMuxReader))" by simp
  from boundary_events_all_opened[OF this]
  have ev: "boundary_events (trace (producer ops NewMuxReader))
      = map (\<lambda>opn. \<lparr>Name = opName opn, ByteOffset = 0\<rparr>) ops"
    by (simp add: boundary_of_def[abs_def])
  have ex: "\<exists>rd. opOpen (ops ! j) = Inr rd
             \<and> produce j (drop j ops) (reached ops j)
                 = (if fst (streamBytes j (opName (ops ! j)) rd ?meta ?a)
                    then produce (Suc j) (drop (Suc j) ops)
                           (snd (streamBytes j (opName (ops ! j)) rd ?meta ?a))
                    else snd (streamBytes j (opName (ops ! j)) rd ?meta ?a))
             \<and> buf (pipe (snd (streamBytes j (opName (ops ! j)) rd ?meta ?a)))
                 = buf (pipe ?a) @ payload rd
             \<and> boundary (snd (streamBytes j (opName (ops ! j)) rd ?meta ?a)) = boundary ?a"
    using rd step sb sbd by blast
  show ?thesis
    by (intro conjI) (fact run ex bj aw cur bufa wa prev ev)+
qed

theorem boundary_published_before_bytes_witness:
  "boundary (at_boundary hello_world 1)
     = \<lparr>queue = [\<lparr>Name = ''b'', ByteOffset = 0\<rparr>], closed = False\<rparr>
   \<and> Current (at_boundary hello_world 1) = \<lparr>Name = ''b'', ByteOffset = 0\<rparr>
   \<and> buf (pipe (at_boundary hello_world 1)) = ''hello''
   \<and> boundary (reached hello_world 1)
       = \<lparr>queue = [\<lparr>Name = ''a'', ByteOffset = 0\<rparr>], closed = False\<rparr>
   \<and> buf (pipe (at_boundary hello_world 0)) = []
   \<and> produce 0 hello_world NewMuxReader
       = snd (streamBytes 1 ''b'' [(''WORLD'', None)] \<lparr>Name = ''b'', ByteOffset = 0\<rparr>
                (at_boundary hello_world 1))
   \<and> buf (pipe (produce 0 hello_world NewMuxReader)) = ''helloWORLD''
   \<and> boundary_events (trace (producer hello_world NewMuxReader))
       = [\<lparr>Name = ''a'', ByteOffset = 0\<rparr>, \<lparr>Name = ''b'', ByteOffset = 0\<rparr>]"
proof -
  have h: "\<forall>opn\<in>set hello_world. \<exists>rd. opOpen opn = Inr rd"
    "\<forall>opn\<in>set (butlast hello_world). reads_cleanly opn"
    "1 < length hello_world" "0 < length hello_world"
    by (simp_all add: hello_world_def reads_cleanly_def)
  note t1 = boundary_published_before_bytes[OF h(1,2,3)]
  note t0 = boundary_published_before_bytes[OF h(1,2,4)]
  have n1: "hello_world ! 1 = \<lparr>opName = ''b'', opOpen = Inr [(''WORLD'', None)]\<rparr>"
    and n0: "hello_world ! 0 = \<lparr>opName = ''a'', opOpen = Inr [(''hello'', None)]\<rparr>"
    and tk: "take 1 hello_world = [\<lparr>opName = ''a'', opOpen = Inr [(''hello'', None)]\<rparr>]"
    and dr: "drop (Suc 1) hello_world = []"
    by (simp_all add: hello_world_def)
  from t1 have 1: "boundary (at_boundary hello_world 1)
     = \<lparr>queue = [\<lparr>Name = ''b'', ByteOffset = 0\<rparr>], closed = False\<rparr>"
    and 2: "Current (at_boundary hello_world 1) = \<lparr>Name = ''b'', ByteOffset = 0\<rparr>"
    unfolding n1 by simp_all
  from t1 have 3: "buf (pipe (at_boundary hello_world 1)) = ''hello''"
    unfolding tk by (simp add: source_payload_def)
  from t0 have b0: "boundary (at_boundary hello_world 0)
     = \<lparr>queue = [\<lparr>Name = ''a'', ByteOffset = 0\<rparr>], closed = False\<rparr>"
    and 5: "buf (pipe (at_boundary hello_world 0)) = []"
    unfolding n0 by simp_all
  from t1 b0 have 4: "boundary (reached hello_world 1)
       = \<lparr>queue = [\<lparr>Name = ''a'', ByteOffset = 0\<rparr>], closed = False\<rparr>" by simp
  let ?r = "streamBytes 1 ''b'' [(''WORLD'', None)] \<lparr>Name = ''b'', ByteOffset = 0\<rparr>
                (at_boundary hello_world 1)"
  from t1 obtain rd where rd: "opOpen (hello_world ! 1) = Inr rd"
    and st: "produce 1 (drop 1 hello_world) (reached hello_world 1)
        = (if fst (streamBytes 1 (opName (hello_world ! 1)) rd (boundary_of (hello_world ! 1))
                     (at_boundary hello_world 1))
           then produce (Suc 1) (drop (Suc 1) hello_world)
                  (snd (streamBytes 1 (opName (hello_world ! 1)) rd (boundary_of (hello_world ! 1))
                     (at_boundary hello_world 1)))
           else snd (streamBytes 1 (opName (hello_world ! 1)) rd (boundary_of (hello_world ! 1))
                     (at_boundary hello_world 1)))"
    and bf: "buf (pipe (snd (streamBytes 1 (opName (hello_world ! 1)) rd
                 (boundary_of (hello_world ! 1)) (at_boundary hello_world 1))))
        = buf (pipe (at_boundary hello_world 1)) @ payload rd"
    by blast
  from rd have rdv: "rd = [(''WORLD'', None)]" unfolding n1 by simp
  from t1 have run: "produce 0 hello_world NewMuxReader
      = produce 1 (drop 1 hello_world) (reached hello_world 1)" by blast
  have 6: "produce 0 hello_world NewMuxReader = snd ?r"
    unfolding run st dr unfolding rdv n1 by (simp add: boundary_of_def del: streamBytes.simps)
  from bf 3 have 7: "buf (pipe (produce 0 hello_world NewMuxReader)) = ''helloWORLD''"
    unfolding 6 rdv n1 by (simp add: boundary_of_def del: streamBytes.simps)
  from t1 have 8: "boundary_events (trace (producer hello_world NewMuxReader))
       = [\<lparr>Name = ''a'', ByteOffset = 0\<rparr>, \<lparr>Name = ''b'', ByteOffset = 0\<rparr>]"
    by (simp add: hello_world_def)
  from 1 2 3 4 5 6 7 8 show ?thesis by blast
qed

text \<open>
  C7: publishing on the boundary channel always ends, with the published value as the only
  content of the slot, whatever the slot held; so two boundaries published before the
  consumer looks leave only the second for \<open>AwaitBoundary\<close>. When the producer has
  finished, the channel is empty and closed: \<open>AwaitBoundary\<close> then never waits, leaves the
  multiplexer as it is, and returns \<open>io.EOF\<close>; only when the caller's context is already
  cancelled may the \<open>select\<close> return the cancellation instead.
\<close>

theorem boundary_mailbox_coalesces:
  "overwriteLatest ch v = ch\<lparr>queue := [v]\<rparr>
   \<and> AwaitBoundary (m\<lparr>boundary := overwriteLatest (overwriteLatest (boundary m) v1) v2\<rparr>) False
       = [((v2, None), m\<lparr>boundary := (boundary m)\<lparr>queue := []\<rparr>\<rparr>)]
   \<and> boundary (producer ops NewMuxReader) = \<lparr>queue = [], closed = True\<rparr>
   \<and> AwaitBoundary (producer ops NewMuxReader) False
       = [((zeroMeta, Some EOF), producer ops NewMuxReader)]
   \<and> AwaitBoundary (producer ops NewMuxReader) True
       = [((zeroMeta, Some EOF), producer ops NewMuxReader),
          ((zeroMeta, Some Canceled), producer ops NewMuxReader)]"
proof -
  have cl: "closed (boundary (produce 0 ops NewMuxReader)) = False" for ops
  proof -
    have "closed (boundary (snd (streamBytes k nm rd meta m))) = closed (boundary m)"
      for k nm rd meta m
    proof (induction rd arbitrary: meta m)
      case Nil
      show ?case by simp
    next
      case (Cons x rd)
      obtain chunk rerr where x: "x = (chunk, rerr)" by (cases x)
      have f: "closed (boundary (case forward k chunk meta m of Inl m' \<Rightarrow> m' | Inr (meta', m') \<Rightarrow> m'))
          = closed (boundary m)"
        by (simp add: forward_def Let_def split: sum.splits)
      show ?case
      proof (cases "forward k chunk meta m")
        case (Inl m')
        with f x show ?thesis by simp
      next
        case (Inr p)
        obtain meta1 m1 where p: "p = (meta1, m1)" by (cases p)
        with f Inr have "closed (boundary m1) = closed (boundary m)" by simp
        with Cons.IH[of meta1 m1] Inr p x show ?thesis
          by (cases rerr) (simp_all add: abort_read_def)
      qed
    qed
    then have "closed (boundary (produce k ops m)) = closed (boundary m)" for k m
      by (induction ops arbitrary: k m)
         (simp_all add: abort_open_def case_prod_beta split: sum.splits)
    then show ?thesis by (simp add: NewMuxReader_def)
  qed
  have b: "boundary (producer ops NewMuxReader) = \<lparr>queue = [], closed = True\<rparr>"
    using cl[of ops] by (simp add: producer_boundary)
  show ?thesis
    by (simp add: overwriteLatest_latest AwaitBoundary_def b)
qed

text \<open>
  C8: when the sources before source \<open>k\<close> open and read cleanly and source \<open>k\<close> fails to
  open, a consumer that reads the stream to its end receives the bytes of the sources
  before \<open>k\<close> and then, from \<open>Read\<close>, an error that names source \<open>k\<close>; the producer writes
  no byte of source \<open>k\<close> or of a later source to the pipe.
\<close>

theorem open_failure_aborts:
  assumes "\<forall>opn\<in>set before. reads_cleanly opn" and "opOpen bad = Inl err" and "n > 0"
  shows "ReadAll n (producer (before @ bad # after) NewMuxReader)
           = Some (concat (map source_payload before), OpenError (opName bad) err)
       \<and> (\<forall>k c. Wrote k c \<in> set (trace (producer (before @ bad # after) NewMuxReader)) \<longrightarrow>
             k < length before)
       \<and> buf (pipe (producer (before @ bad # after) NewMuxReader))
           = concat (map source_payload before)"
proof -
  let ?ops = "before @ bad # after"
  have mb: "merged_bytes ?ops = concat (map source_payload before)"
    and te: "terminal_error ?ops = OpenError (opName bad) err"
    using clean_prefix_bytes[OF assms(1), of "bad # after"] assms(2) by simp_all
  have r: "ReadAll n (producer ?ops NewMuxReader)
      = Some (concat (map source_payload before), OpenError (opName bad) err)"
    using ReadAll_producer[OF assms(3), of ?ops] mb te by simp
  have pb: "buf (pipe (producer ?ops NewMuxReader)) = concat (map source_payload before)"
    using producer_pipe[OF pipe_open_New, of ?ops] mb by simp
  from produce_append[OF pipe_open_New assms(1), of 0 "bad # after"] assms(2)
  have t: "trace (producer ?ops NewMuxReader)
      = trace (produce 0 before NewMuxReader) @ [Aborted (OpenError (opName bad) err)]"
    by (simp add: producer_trace abort_open_def)
  from produce_trace[of 0 before NewMuxReader]
  have "\<forall>j c. Wrote j c \<in> set (trace (produce 0 before NewMuxReader)) \<longrightarrow> j < length before"
    by auto
  with t have w: "\<forall>k c. Wrote k c \<in> set (trace (producer ?ops NewMuxReader)) \<longrightarrow> k < length before"
    by simp
  from r w pb show ?thesis by blast
qed

theorem open_failure_aborts_witness:
  "ReadAll 512 (producer hello_bad_world NewMuxReader)
     = Some (''hello'', OpenError ''bad'' (Failure ''boom''))
   \<and> ReadAll 16 (producer [\<lparr>opName = ''bad'', opOpen = Inl (Failure ''boom'')\<rparr>] NewMuxReader)
     = Some ([], OpenError ''bad'' (Failure ''boom''))"
proof -
  let ?a = "\<lparr>opName = ''a'', opOpen = Inr [(''hello'', None)]\<rparr>"
  let ?bad = "\<lparr>opName = ''bad'', opOpen = Inl (Failure ''boom'')\<rparr>"
  let ?b = "\<lparr>opName = ''b'', opOpen = Inr [(''WORLD'', None)]\<rparr>"
  have c: "\<forall>opn\<in>set [?a]. reads_cleanly opn" by (simp add: reads_cleanly_def)
  have e: "\<forall>opn\<in>set ([] :: opener list). reads_cleanly opn" by simp
  have o: "opOpen ?bad = Inl (Failure ''boom'')" by simp
  from open_failure_aborts[OF c o, of 512 "[?b]"] open_failure_aborts[OF e o, of 16 "[]"]
  show ?thesis by (simp add: hello_bad_world_def source_payload_def)
qed

text \<open>
  C10: \<open>Current\<close> of a multiplexer whose producer has stored nothing is the zero
  \<open>SrcMeta\<close>, with the empty name and offset zero. That is so for the multiplexer as
  \<open>NewMuxReader\<close> returns it and, over an empty list of sources, also after the producer has
  finished; and \<open>Read\<close>, \<open>Close\<close> and \<open>AwaitBoundary\<close> leave it so.
\<close>

theorem current_of_fresh_multiplexer:
  "Current NewMuxReader = \<lparr>Name = [], ByteOffset = 0\<rparr>
   \<and> Current (producer [] NewMuxReader) = \<lparr>Name = [], ByteOffset = 0\<rparr>
   \<and> (mcurrent m = None \<longrightarrow>
        Current m = \<lparr>Name = [], ByteOffset = 0\<rparr>
      \<and> mcurrent (Close m) = None
      \<and> (\<forall>n res m'. Read m n = Some (res, m') \<longrightarrow> mcurrent m' = None)
      \<and> (\<forall>ctxDone res m'. (res, m') \<in> set (AwaitBoundary m ctxDone) \<longrightarrow> mcurrent m' = None))"
proof (intro conjI impI allI)
  show "Current NewMuxReader = \<lparr>Name = [], ByteOffset = 0\<rparr>"
    by (simp add: Current_def zeroMeta_def)
  show "Current (producer [] NewMuxReader) = \<lparr>Name = [], ByteOffset = 0\<rparr>"
    by (simp add: Current_def zeroMeta_def producer_mcurrent)
next
  assume "mcurrent m = None"
  then show "Current m = \<lparr>Name = [], ByteOffset = 0\<rparr>"
    by (simp add: Current_def zeroMeta_def)
next
  assume "mcurrent m = None"
  then show "mcurrent (Close m) = None" by (simp add: Close_def)
next
  fix n res m'
  assume "mcurrent m = None" and "Read m n = Some (res, m')"
  then show "mcurrent m' = None"
    by (cases "prRead (pipe m) n") (auto simp: Read_def)
next
  fix ctxDone res m'
  assume "mcurrent m = None" and "(res, m') \<in> set (AwaitBoundary m ctxDone)"
  then show "mcurrent m' = None"
    by (cases "queue (boundary m) = []"; cases "closed (boundary m)"; cases ctxDone)
       (auto simp: AwaitBoundary_def)
qed

theorem current_of_fresh_multiplexer_witness:
  "mcurrent (producer [] NewMuxReader) = None
   \<and> Current NewMuxReader = \<lparr>Name = [], ByteOffset = 0\<rparr>
   \<and> Current (producer [] NewMuxReader) = \<lparr>Name = [], ByteOffset = 0\<rparr>
   \<and> mcurrent (Close (producer [] NewMuxReader)) = None
   \<and> map_option (mcurrent \<circ> snd) (Read (producer [] NewMuxReader) 1) = Some None"
proof -
  let ?m = "producer [] NewMuxReader"
  have n: "mcurrent ?m = None" by (simp add: producer_mcurrent)
  have r: "Read ?m 1 = Some (([], Some EOF), ?m)"
    using producer_pipe[OF pipe_open_New, of "[]"]
    by (simp add: Read_def prRead_def NewMuxReader_def)
  note t = current_of_fresh_multiplexer[of ?m]
  from t have 1: "Current NewMuxReader = \<lparr>Name = [], ByteOffset = 0\<rparr>"
    and 2: "Current ?m = \<lparr>Name = [], ByteOffset = 0\<rparr>" by blast+
  from t n have 3: "mcurrent (Close ?m) = None" by blast
  from t n have "\<forall>n res m'. Read ?m n = Some (res, m') \<longrightarrow> mcurrent m' = None" by blast
  with r have 4: "mcurrent ?m = None" by blast
  from n 1 2 3 show ?thesis unfolding r by simp
qed

end
